theory Spec2Isabelle
  imports Complex_Main "HOL-Library.AList"
begin

section \<open>JavaScript data values\<close>

text \<open>
  The store engine works on plain data: \<open>undefined\<close>, \<open>null\<close>, booleans, numbers, strings,
  callables, arrays and records. Numbers are the integer-valued ones (no \<open>NaN\<close>, which is the
  one number \<open>===\<close> tells apart from itself). A callable is opaque and known by its
  reference only. An array is dense. A record lists its own enumerable properties, a new
  key going to the end (the engine lists integer-like keys first; nothing stated here
  depends on the order of the keys). A record of the running program never has the same
  key twice (\<open>well_formed\<close> below). Values are trees: object references are not part of
  this model, the section on values with object identities has them.
\<close>

datatype jsval =
    VUndef
  | VNull
  | VBool bool
  | VNum int
  | VStr string
  | VFun nat
  | VArr "jsval list"
  | VObj "(string \<times> jsval) list"

datatype jstype = TUndefined | TObject | TBoolean | TNumber | TString | TFunction

fun typeof :: "jsval \<Rightarrow> jstype" where
  "typeof VUndef = TUndefined"
| "typeof VNull = TObject"
| "typeof (VBool b) = TBoolean"
| "typeof (VNum n) = TNumber"
| "typeof (VStr s) = TString"
| "typeof (VFun f) = TFunction"
| "typeof (VArr xs) = TObject"
| "typeof (VObj kvs) = TObject"

text \<open>\<open>Array.isArray\<close>.\<close>

fun isArray :: "jsval \<Rightarrow> bool" where
  "isArray (VArr xs) = True"
| "isArray v = False"

text \<open>Truthiness, as \<open>if (v)\<close> and \<open>v && ...\<close> read a value.\<close>

fun truthy :: "jsval \<Rightarrow> bool" where
  "truthy VUndef = False"
| "truthy VNull = False"
| "truthy (VBool b) = b"
| "truthy (VNum n) = (n \<noteq> 0)"
| "truthy (VStr s) = (s \<noteq> [])"
| "truthy v = True"

text \<open>\<open>v == null\<close>: true of \<open>null\<close> and \<open>undefined\<close> only.\<close>

fun loose_null :: "jsval \<Rightarrow> bool" where
  "loose_null VUndef = True"
| "loose_null VNull = True"
| "loose_null v = False"

text \<open>
  \<open>a === b\<close>. On primitives it compares the values, on callables the references. Two
  containers are \<open>===\<close> only when they are one object; the tree model has no references, so
  it answers \<open>False\<close> for containers, and \<open>deepEqual_refl\<close> shows that \<open>deepEqual\<close> computes
  \<open>True\<close> for one object against itself all the same.
\<close>

fun strict_equal :: "jsval \<Rightarrow> jsval \<Rightarrow> bool" where
  "strict_equal VUndef VUndef = True"
| "strict_equal VNull VNull = True"
| "strict_equal (VBool a) (VBool b) = (a = b)"
| "strict_equal (VNum a) (VNum b) = (a = b)"
| "strict_equal (VStr a) (VStr b) = (a = b)"
| "strict_equal (VFun a) (VFun b) = (a = b)"
| "strict_equal a b = False"

text \<open>The decimal name of an array index, as \<open>Object.keys\<close> and \<open>for ... in\<close> give it.\<close>

fun index_key :: "nat \<Rightarrow> string" where
  "index_key n =
     (if n < 10 then [char_of (48 + n)]
      else index_key (n div 10) @ [char_of (48 + n mod 10)])"

declare index_key.simps [simp del]

text \<open>\<open>Object.keys(v)\<close>, which is also the order of \<open>for (key in v)\<close> with its
  \<open>hasOwnProperty\<close> filter: the indices of an array or a string, the keys of a record.\<close>

fun own_keys :: "jsval \<Rightarrow> string list" where
  "own_keys (VArr xs) = map index_key [0..<length xs]"
| "own_keys (VObj kvs) = map fst kvs"
| "own_keys (VStr s) = map index_key [0..<length s]"
| "own_keys v = []"

text \<open>\<open>xs[i]\<close> on a list: \<open>undefined\<close> out of range.\<close>

definition nth_js :: "jsval list \<Rightarrow> nat \<Rightarrow> jsval" where
  "nth_js xs i = (if i < length xs then xs ! i else VUndef)"

text \<open>
  \<open>v[key]\<close> for a key among the own enumerable ones, \<open>undefined\<close> for any other key. It is
  the read of \<open>deepEqual\<close> and \<open>deepMerge\<close>, whose keys are own keys of one of their
  arguments; where \<open>deepMerge\<close> reads such a key from the other argument and finds a
  method of the prototype or the \<open>length\<close> of an array instead of \<open>undefined\<close>, it goes on
  as it does for \<open>undefined\<close> (neither is a plain object). The name \<open>__proto__\<close>, under
  which an object reads its prototype, is not modelled. The reads that follow \<open>key in v\<close>
  go through the prototype chain, see \<open>get_member\<close>.
\<close>

fun get_prop :: "jsval \<Rightarrow> string \<Rightarrow> jsval" where
  "get_prop (VArr xs) key =
     (case find (\<lambda>i. index_key i = key) [0..<length xs] of
        Some i \<Rightarrow> xs ! i
      | None \<Rightarrow> VUndef)"
| "get_prop (VObj kvs) key = (case map_of kvs key of Some v \<Rightarrow> v | None \<Rightarrow> VUndef)"
| "get_prop (VStr s) key =
     (case find (\<lambda>i. index_key i = key) [0..<length s] of
        Some i \<Rightarrow> VStr [s ! i]
      | None \<Rightarrow> VUndef)"
| "get_prop v key = VUndef"

text \<open>The elements of an array.\<close>

fun elements :: "jsval \<Rightarrow> jsval list" where
  "elements (VArr xs) = xs"
| "elements v = []"

text \<open>A value of the running program: no record has a key twice.\<close>

fun well_formed :: "jsval \<Rightarrow> bool" where
  "well_formed (VArr xs) = list_all well_formed xs"
| "well_formed (VObj kvs) = (distinct (map fst kvs) \<and> list_all (\<lambda>kv. well_formed (snd kv)) kvs)"
| "well_formed v = True"

lemma size_map_of:
  "map_of kvs k = Some v \<Longrightarrow> size v < Suc (size_list (size_prod (\<lambda>_. 0) size) kvs)"
  by (induction kvs) (auto split: if_splits)

lemma size_get_prop:
  "key \<in> set (own_keys v) \<Longrightarrow> typeof v = TObject \<Longrightarrow> size (get_prop v key) < size v"
proof (cases v)
  case (VArr xs)
  assume "key \<in> set (own_keys v)"
  then obtain i where i: "i < length xs" "index_key i = key"
    using VArr by auto
  then obtain j where j: "find (\<lambda>i. index_key i = key) [0..<length xs] = Some j"
    by (cases "find (\<lambda>i. index_key i = key) [0..<length xs]") (auto simp: find_None_iff)
  then have "j < length xs"
    by (auto simp: find_Some_iff)
  then have "size (xs ! j) < Suc (size_list size xs)"
    by (meson less_Suc_eq_le nth_mem size_list_estimation' order_refl)
  then show ?thesis using VArr j by simp
next
  case (VObj kvs)
  assume "key \<in> set (own_keys v)"
  then obtain w where "map_of kvs key = Some w"
    using VObj by (cases "map_of kvs key") (auto simp: map_of_eq_None_iff)
  then show ?thesis using VObj size_map_of[of kvs key w] by simp
qed auto

section \<open>Structural utilities (\<open>utils/object.util.ts\<close>)\<close>

datatype error = DataCloneError | TypeError | SyntaxError | SecurityError | Unmodelled

text \<open>
  \<open>deepClonePolyfill\<close>: a primitive (and \<open>null\<close>) is returned as it is, an array is mapped,
  and a record is rebuilt key by key into a fresh \<open>{}\<close>. The branch for callables is behind
  the first test (\<open>typeof source !== "object"\<close>), which already returns them.
\<close>

function deepClonePolyfill :: "jsval \<Rightarrow> jsval" where
  "deepClonePolyfill source =
     (if source = VNull \<or> typeof source \<noteq> TObject then source
      else if isArray source then VArr (map deepClonePolyfill (elements source))
      else VObj (foldl
             (\<lambda>clonedObject key.
                AList.update key (deepClonePolyfill (get_prop source key)) clonedObject)
             [] (own_keys source)))"
  by pat_completeness auto

lemma size_elements:
  "x \<in> set (elements v) \<Longrightarrow> size x < size v"
  by (cases v) (auto simp: less_Suc_eq_le size_list_estimation')

termination deepClonePolyfill
  by (relation "measure size") (auto simp: size_elements size_get_prop)

declare deepClonePolyfill.simps [simp del]

text \<open>
  The platform's \<open>structuredClone\<close>: it copies plain data and refuses a value that holds a
  callable with a \<open>DataCloneError\<close>. On trees the copy is the value itself.
\<close>

fun has_callable :: "jsval \<Rightarrow> bool" where
  "has_callable (VFun f) = True"
| "has_callable (VArr xs) = list_ex has_callable xs"
| "has_callable (VObj kvs) = list_ex (\<lambda>kv. has_callable (snd kv)) kvs"
| "has_callable v = False"

definition structuredClone :: "jsval \<Rightarrow> error + jsval" where
  "structuredClone source = (if has_callable source then Inl DataCloneError else Inr source)"

text \<open>
  \<open>deepClone\<close>. The flag \<open>sc\<close> is \<open>typeof structuredClone === "function"\<close>, a fact of the
  environment the module runs in. Whatever \<open>structuredClone\<close> throws is caught and the
  polyfill is used.
\<close>

definition deepClone :: "bool \<Rightarrow> jsval \<Rightarrow> jsval" where
  "deepClone sc source =
     (if sc then
        (case structuredClone source of
           Inr cloned \<Rightarrow> cloned
         | Inl e \<Rightarrow> deepClonePolyfill source)
      else deepClonePolyfill source)"

text \<open>\<open>deepEqual\<close>, branch by branch as the source has it.\<close>

function deepEqual :: "jsval \<Rightarrow> jsval \<Rightarrow> bool" where
  "deepEqual source destination =
     (if strict_equal source destination then True
      else if loose_null source \<or> typeof source \<noteq> TObject \<or>
              loose_null destination \<or> typeof destination \<noteq> TObject then False
      else if isArray source \<and> isArray destination then
        (if length (elements source) \<noteq> length (elements destination) then False
         else list_all
                (\<lambda>(item, index). deepEqual item (nth_js (elements destination) index))
                (zip (elements source) [0..<length (elements source)]))
      else
        (let sourceKeys = own_keys source; destinationKeys = own_keys destination in
         if length sourceKeys \<noteq> length destinationKeys then False
         else list_all
                (\<lambda>key. key \<in> set destinationKeys \<and>
                       deepEqual (get_prop source key) (get_prop destination key))
                sourceKeys))"
  by pat_completeness auto

termination deepEqual
  by (relation "measure (\<lambda>(source, destination). size source)")
     (auto simp: size_elements size_get_prop dest: set_zip_leftD)

declare deepEqual.simps [simp del]

text \<open>\<open>Object.prototype.toString.call(v)\<close> on the values of the model.\<close>

fun object_tag :: "jsval \<Rightarrow> string" where
  "object_tag VUndef = ''[object Undefined]''"
| "object_tag VNull = ''[object Null]''"
| "object_tag (VBool b) = ''[object Boolean]''"
| "object_tag (VNum n) = ''[object Number]''"
| "object_tag (VStr s) = ''[object String]''"
| "object_tag (VFun f) = ''[object Function]''"
| "object_tag (VArr xs) = ''[object Array]''"
| "object_tag (VObj kvs) = ''[object Object]''"

definition isPlainObject :: "jsval \<Rightarrow> bool" where
  "isPlainObject v =
     (typeof v = TObject \<and> v \<noteq> VNull \<and> \<not> isArray v \<and> object_tag v = ''[object Object]'')"

text \<open>
  The read \<open>result[key]\<close> of \<open>deepMerge\<close>, on a key that \<open>result\<close> need not have: a
  \<open>TypeError\<close> on \<open>null\<close> and \<open>undefined\<close>.
\<close>

definition read_prop :: "jsval \<Rightarrow> string \<Rightarrow> error + jsval" where
  "read_prop v key = (if loose_null v then Inl TypeError else Inr (get_prop v key))"

text \<open>
  The assignment \<open>result[key] = v\<close>. On a record it replaces the value of a key in place
  and appends a new key. On a primitive it is a \<open>TypeError\<close> (module code is strict). On
  an array it writes an element or appends one; any other write to an array, and a write
  to a callable, is outside the model.
\<close>

fun set_prop :: "jsval \<Rightarrow> string \<Rightarrow> jsval \<Rightarrow> error + jsval" where
  "set_prop (VObj kvs) key v = Inr (VObj (AList.update key v kvs))"
| "set_prop (VArr xs) key v =
     (case find (\<lambda>i. index_key i = key) [0..<Suc (length xs)] of
        Some i \<Rightarrow> Inr (VArr (if i < length xs then xs[i := v] else xs @ [v]))
      | None \<Rightarrow> Inl Unmodelled)"
| "set_prop (VFun f) key v = Inl Unmodelled"
| "set_prop r key v = Inl TypeError"

text \<open>
  \<open>deepMerge\<close>. The \<open>for (key in source)\<close> loop is \<open>merge_keys\<close>: it carries \<open>result\<close>
  through the keys still to visit and stops at the first exception.
\<close>

function deepMerge :: "bool \<Rightarrow> jsval \<Rightarrow> jsval \<Rightarrow> error + jsval"
  and merge_keys :: "bool \<Rightarrow> jsval \<Rightarrow> jsval \<Rightarrow> string list \<Rightarrow> error + jsval" where
  "deepMerge sc target source =
     (if strict_equal source VUndef \<or> strict_equal source VNull then Inr target
      else merge_keys sc source (deepClone sc target) (own_keys source))"
| "merge_keys sc source result [] = Inr result"
| "merge_keys sc source result (key # keys) =
     (case read_prop result key of
        Inl e \<Rightarrow> Inl e
      | Inr targetValue \<Rightarrow>
          (let sourceValue = get_prop source key in
           if strict_equal sourceValue VUndef then merge_keys sc source result keys
           else if isPlainObject targetValue \<and> isPlainObject sourceValue then
             (case deepMerge sc targetValue sourceValue of
                Inl e \<Rightarrow> Inl e
              | Inr merged \<Rightarrow>
                  (case set_prop result key merged of
                     Inl e \<Rightarrow> Inl e
                   | Inr result' \<Rightarrow> merge_keys sc source result' keys))
           else
             (case set_prop result key sourceValue of
                Inl e \<Rightarrow> Inl e
              | Inr result' \<Rightarrow> merge_keys sc source result' keys)))"
  by pat_completeness auto

lemma size_get_prop_plain:
  "isPlainObject (get_prop v key) \<Longrightarrow> size (get_prop v key) < size v"
proof (cases v)
  case (VArr xs)
  assume p: "isPlainObject (get_prop v key)"
  show ?thesis
  proof (cases "find (\<lambda>i. index_key i = key) [0..<length xs]")
    case None
    then show ?thesis using p VArr by (simp add: isPlainObject_def)
  next
    case (Some j)
    then have "j < length xs" by (auto simp: find_Some_iff)
    then have "size (xs ! j) < Suc (size_list size xs)"
      by (meson less_Suc_eq_le nth_mem size_list_estimation' order_refl)
    then show ?thesis using VArr Some by simp
  qed
next
  case (VObj kvs)
  assume p: "isPlainObject (get_prop v key)"
  show ?thesis
  proof (cases "map_of kvs key")
    case None
    then show ?thesis using p VObj by (simp add: isPlainObject_def)
  next
    case (Some w)
    then show ?thesis using VObj size_map_of[of kvs key w] by simp
  qed
qed (auto simp: isPlainObject_def split: option.splits)

termination deepMerge
  by (relation
        "(\<lambda>x. case x of Inl (sc, target, source) \<Rightarrow> size source
                       | Inr (sc, source, result, keys) \<Rightarrow> size source) <*mlex*>
         measure (\<lambda>x. case x of Inl (sc, target, source) \<Rightarrow> Suc (length (own_keys source))
                               | Inr (sc, source, result, keys) \<Rightarrow> length keys)")
     (auto simp: size_get_prop_plain wf_mlex mlex_less mlex_leq)

declare deepMerge.simps [simp del]

section \<open>The singleton store with history (\<open>createDataStore\<close>)\<close>

text \<open>
  An update is what \<open>setStore\<close> is called with. A callable (\<open>typeof update === "function"\<close>)
  is a \<open>Mutator\<close>: a function from the value it is given to the pair of that value after the
  call (what the call did to its argument in place) and of the value it returned, \<open>VUndef\<close>
  when it returned nothing. Anything else is \<open>Plain\<close>.
\<close>

datatype update = Mutator "jsval \<Rightarrow> jsval \<times> jsval" | Plain jsval

text \<open>
  A number as \<open>rollbackTo\<close> can be given one: a finite one, an infinity or \<open>NaN\<close>. A finite
  number is a rational; every finite double is one, and the sums and differences the
  engine forms (\<open>currentIndex + 1\<close>, \<open>currentIndex--\<close>, \<open>history.length - 1\<close>) are exact on the
  integers and halves below \<open>2 ^ 53\<close>, the rounding of other doubles is not modelled.
\<close>

datatype number = Finite rat | PosInfinity | NegInfinity | NaN

text \<open>
  The closure of \<open>createDataStore\<close>. \<open>currentIndex\<close> is a number, and a finite one: it is
  assigned \<open>0\<close>, \<open>history.length - 1\<close>, itself plus or minus one, or an argument of
  \<open>rollbackTo\<close> that passed the guard, which no infinity and no \<open>NaN\<close> does. \<open>pending\<close> is the timer behind
  \<open>pushHistoryDebouncedTimeout\<close>: \<open>None\<close> when no timer is waiting, else the time left until
  it fires and the \<open>latestVersion\<close> its callback holds. \<open>frames\<close> counts the animation frames
  \<open>notifySubscribers\<close> has requested.
\<close>

record data_store =
  structured :: bool
  initialState :: jsval
  store :: jsval
  history :: "jsval list"
  currentIndex :: rat
  pending :: "(nat \<times> jsval) option"
  frames :: nat

definition MAX_HISTORY :: int where
  "MAX_HISTORY = 100"

definition DEBOUNCE :: nat where
  "DEBOUNCE = 200"

definition createDataStore :: "bool \<Rightarrow> jsval \<Rightarrow> data_store" where
  "createDataStore sc init =
     (let st = deepClone sc init in
      \<lparr> structured = sc, initialState = init, store = st,
        history = [deepClone sc st], currentIndex = 0, pending = None, frames = 0 \<rparr>)"

definition getStore :: "data_store \<Rightarrow> jsval" where
  "getStore s = store s"

definition notifySubscribers :: "data_store \<Rightarrow> data_store" where
  "notifySubscribers s = s\<lparr>frames := Suc (frames s)\<rparr>"

text \<open>
  \<open>history[i]\<close>: the element when \<open>i\<close> is the index of one, and \<open>undefined\<close> otherwise,
  out of range or at a number that is no integer (the array has no property of that name).
\<close>

definition history_at :: "jsval list \<Rightarrow> rat \<Rightarrow> jsval" where
  "history_at h i =
     (if of_int \<lfloor>i\<rfloor> = i \<and> 0 \<le> i \<and> i < of_nat (length h) then h ! nat \<lfloor>i\<rfloor> else VUndef)"

text \<open>\<open>ToIntegerOrInfinity\<close> on a finite number: the fraction is dropped, towards zero.\<close>

definition to_integer :: "rat \<Rightarrow> int" where
  "to_integer q = (if q < 0 then \<lceil>q\<rceil> else \<lfloor>q\<rfloor>)"

text \<open>
  \<open>h.splice(start)\<close>: what is left of \<open>h\<close>. \<open>start\<close> is made an integer first; a negative
  one counts from the end.
\<close>

definition splice_from :: "rat \<Rightarrow> jsval list \<Rightarrow> jsval list" where
  "splice_from start h =
     (let n = int (length h);
          relativeStart = to_integer start;
          from = (if relativeStart < 0 then max (n + relativeStart) 0 else min relativeStart n)
      in take (nat from) h)"

text \<open>The candidate next state of \<open>setStore\<close> (lines 28 to 53).\<close>

definition nextState :: "data_store \<Rightarrow> update \<Rightarrow> error + jsval" where
  "nextState s upd =
     (case upd of
        Mutator f \<Rightarrow>
          (if typeof (store s) \<noteq> TObject then Inr (snd (f (store s)))
           else
             (let draft = deepClone (structured s) (store s);
                  mutated = fst (f draft);
                  result = snd (f draft)
              in if \<not> strict_equal result VUndef then Inr result else Inr mutated))
      | Plain u \<Rightarrow>
          (if truthy u \<and> typeof u = TObject \<and> \<not> isArray u \<and>
              truthy (store s) \<and> typeof (store s) = TObject \<and> \<not> isArray (store s)
           then deepMerge (structured s) (store s) u
           else Inr u))"

text \<open>The callback of the debounce timer (lines 65 to 75).\<close>

definition pushHistory :: "jsval \<Rightarrow> data_store \<Rightarrow> data_store" where
  "pushHistory latestVersion s =
     (let h = splice_from (currentIndex s + 1) (history s) @ [latestVersion];
          i = of_nat (length h) - 1
      in if int (length h) > MAX_HISTORY
         then s\<lparr>history := tl h, currentIndex := i - 1\<rparr>
         else s\<lparr>history := h, currentIndex := i\<rparr>)"

text \<open>
  \<open>setStore\<close>. An exception of \<open>deepMerge\<close> would leave before anything is assigned.
  \<open>clearTimeout\<close> followed by \<open>setTimeout\<close> replaces the waiting timer by a new one with the
  whole delay and the new \<open>latestVersion\<close>.
\<close>

definition setStore :: "update \<Rightarrow> data_store \<Rightarrow> error + data_store" where
  "setStore upd s =
     (case nextState s upd of
        Inl e \<Rightarrow> Inl e
      | Inr next \<Rightarrow>
          (if \<not> deepEqual (store s) next then
             (let latestVersion = deepClone (structured s) next
              in Inr (notifySubscribers
                   (s\<lparr>store := next, pending := Some (DEBOUNCE, latestVersion)\<rparr>)))
           else Inr s))"

text \<open>Time passes: the waiting timer fires once its delay is over.\<close>

definition elapse :: "nat \<Rightarrow> data_store \<Rightarrow> data_store" where
  "elapse d s =
     (case pending s of
        None \<Rightarrow> s
      | Some (left, latestVersion) \<Rightarrow>
          (if left \<le> d then pushHistory latestVersion (s\<lparr>pending := None\<rparr>)
           else s\<lparr>pending := Some (left - d, latestVersion)\<rparr>))"

text \<open>
  \<open>rollbackTo\<close>. The guard compares numbers: it lets every finite number from \<open>0\<close> up to,
  and without, \<open>history.length\<close> through, a fraction too. \<open>Infinity < history.length\<close> is
  false, \<open>-Infinity >= 0\<close> is false, and every comparison with \<open>NaN\<close> is false.
\<close>

fun rollbackTo :: "number \<Rightarrow> data_store \<Rightarrow> data_store" where
  "rollbackTo (Finite versionIndex) s =
     (if versionIndex \<ge> 0 \<and> versionIndex < of_nat (length (history s)) then
        notifySubscribers
          (s\<lparr>currentIndex := versionIndex,
             store := deepClone (structured s) (history_at (history s) versionIndex)\<rparr>)
      else s)"
| "rollbackTo PosInfinity s = s"
| "rollbackTo NegInfinity s = s"
| "rollbackTo NaN s = s"

definition undo :: "data_store \<Rightarrow> data_store" where
  "undo s =
     (if currentIndex s > 0 then
        notifySubscribers
          (s\<lparr>currentIndex := currentIndex s - 1,
             store := deepClone (structured s) (history_at (history s) (currentIndex s - 1))\<rparr>)
      else s)"

definition redo :: "data_store \<Rightarrow> data_store" where
  "redo s =
     (if currentIndex s < of_nat (length (history s)) - 1 then
        notifySubscribers
          (s\<lparr>currentIndex := currentIndex s + 1,
             store := deepClone (structured s) (history_at (history s) (currentIndex s + 1))\<rparr>)
      else s)"

definition resetStore :: "data_store \<Rightarrow> data_store" where
  "resetStore s =
     notifySubscribers
       (s\<lparr>store := deepClone (structured s) (initialState s),
          history := [deepClone (structured s) (initialState s)],
          currentIndex := 0\<rparr>)"

definition getHistory :: "data_store \<Rightarrow> jsval list" where
  "getHistory s = map (deepClone (structured s)) (history s)"

definition getCurrentVersion :: "data_store \<Rightarrow> rat" where
  "getCurrentVersion s = currentIndex s"

text \<open>
  What can happen to a store: a call of its interface, or time passing. An exception of
  \<open>setStore\<close> goes to its caller and the store stays as it was.
\<close>

datatype event =
    SetStore update
  | Elapse nat
  | Undo
  | Redo
  | RollbackTo number
  | ResetStore

fun apply_event :: "data_store \<Rightarrow> event \<Rightarrow> data_store" where
  "apply_event s (SetStore upd) = (case setStore upd s of Inr s' \<Rightarrow> s' | Inl e \<Rightarrow> s)"
| "apply_event s (Elapse d) = elapse d s"
| "apply_event s Undo = undo s"
| "apply_event s Redo = redo s"
| "apply_event s (RollbackTo i) = rollbackTo i s"
| "apply_event s ResetStore = resetStore s"

definition run :: "data_store \<Rightarrow> event list \<Rightarrow> data_store" where
  "run s evs = foldl apply_event s evs"

section \<open>The context store with persistence (\<open>createContextStore\<close>)\<close>

text \<open>
  \<open>localStorage\<close>: whether the browser grants access to it (every call throws a
  \<open>SecurityError\<close> when it does not), the items it holds, and the number of \<open>setItem\<close>
  calls that have written to it.
\<close>

record local_storage =
  granted :: bool
  items :: "(string \<times> string) list"
  writes :: nat

definition getItem :: "local_storage \<Rightarrow> string \<Rightarrow> error + string option" where
  "getItem ls key = (if granted ls then Inr (map_of (items ls) key) else Inl SecurityError)"

definition setItem :: "local_storage \<Rightarrow> string \<Rightarrow> string \<Rightarrow> error + local_storage" where
  "setItem ls key text =
     (if granted ls
      then Inr (ls\<lparr>items := AList.update key text (items ls), writes := Suc (writes ls)\<rparr>)
      else Inl SecurityError)"

text \<open>
  The options of \<open>createContextStore\<close> and what it takes from the platform:
  \<open>JSON.parse\<close> (\<open>None\<close> is its \<open>SyntaxError\<close>) and \<open>JSON.stringify\<close> are parameters. A
  reducer maps the draft it is given and the action to the draft after the call.
  \<open>inherited v key\<close> is what the object \<open>v\<close> holds under \<open>key\<close> apart from its own enumerable
  properties, \<open>None\<close> when it holds nothing there: the properties of its prototype chain
  (\<open>toString\<close>, \<open>constructor\<close>, for an array \<open>map\<close>, ...) and the own properties that are
  not enumerable (\<open>name\<close> of a callable). Which names these are is a fact of the platform.
\<close>

record context_options =
  cloneable :: bool
  json_parse :: "string \<Rightarrow> jsval option"
  json_stringify :: "jsval \<Rightarrow> string"
  inherited :: "jsval \<Rightarrow> string \<Rightarrow> jsval option"
  reducer :: "(jsval \<Rightarrow> jsval \<Rightarrow> jsval) option"
  persistKey :: "string option"
  persistFields :: "string list"

text \<open>
  What an object holds under a name that is not one of its own enumerable properties:
  the \<open>length\<close> of an array, and what the platform says.
\<close>

definition hidden_prop :: "context_options \<Rightarrow> jsval \<Rightarrow> string \<Rightarrow> jsval option" where
  "hidden_prop opts v key =
     (case v of
        VArr xs \<Rightarrow> (if key = ''length'' then Some (VNum (int (length xs))) else inherited opts v key)
      | _ \<Rightarrow> inherited opts v key)"

text \<open>
  \<open>key in v\<close> on an object \<open>v\<close>: an own property, enumerable or not, or one of the
  prototype chain.
\<close>

definition has_property :: "context_options \<Rightarrow> jsval \<Rightarrow> string \<Rightarrow> bool" where
  "has_property opts v key = (key \<in> set (own_keys v) \<or> hidden_prop opts v key \<noteq> None)"

text \<open>\<open>key in v\<close>: a \<open>TypeError\<close> when \<open>v\<close> is not an object.\<close>

definition in_op :: "context_options \<Rightarrow> string \<Rightarrow> jsval \<Rightarrow> error + bool" where
  "in_op opts key v =
     (if (typeof v = TObject \<and> v \<noteq> VNull) \<or> typeof v = TFunction
      then Inr (has_property opts v key)
      else Inl TypeError)"

text \<open>\<open>v[key]\<close> on an object \<open>v\<close>, through the prototype chain.\<close>

definition get_member :: "context_options \<Rightarrow> jsval \<Rightarrow> string \<Rightarrow> jsval" where
  "get_member opts v key =
     (if key \<in> set (own_keys v) then get_prop v key
      else (case hidden_prop opts v key of Some x \<Rightarrow> x | None \<Rightarrow> VUndef))"

text \<open>The own enumerable properties an object spread \<open>...v\<close> copies.\<close>

definition spread :: "jsval \<Rightarrow> (string \<times> jsval) list" where
  "spread v = map (\<lambda>key. (key, get_prop v key)) (own_keys v)"

text \<open>The object literal \<open>{ ...a, ...b }\<close>.\<close>

definition spread2 :: "jsval \<Rightarrow> jsval \<Rightarrow> jsval" where
  "spread2 a b = VObj (foldl (\<lambda>obj kv. AList.update (fst kv) (snd kv) obj) [] (spread a @ spread b))"

text \<open>
  The \<open>reduce\<close> of \<open>loadState\<close> and \<open>saveState\<close> that picks the persisted fields out of
  \<open>from\<close>; it stops at the \<open>TypeError\<close> of \<open>key in from\<close>. \<open>acc[key] = from[key]\<close> defines or
  overwrites the property \<open>key\<close> of the accumulator; the one name for which an assignment
  does something else, \<open>__proto__\<close>, is not modelled.
\<close>

fun pick_fields ::
  "context_options \<Rightarrow> jsval \<Rightarrow> (string \<times> jsval) list \<Rightarrow> string list \<Rightarrow> error + jsval" where
  "pick_fields opts from acc [] = Inr (VObj acc)"
| "pick_fields opts from acc (key # keys) =
     (case in_op opts key from of
        Inl e \<Rightarrow> Inl e
      | Inr True \<Rightarrow> pick_fields opts from (AList.update key (get_member opts from key) acc) keys
      | Inr False \<Rightarrow> pick_fields opts from acc keys)"

text \<open>The body of the \<open>try\<close> of \<open>loadState\<close>, for the key \<open>persistKey\<close>.\<close>

definition loadState_try ::
  "context_options \<Rightarrow> string \<Rightarrow> local_storage \<Rightarrow> jsval \<Rightarrow> error + jsval" where
  "loadState_try opts key ls init =
     (case getItem ls key of
        Inl e \<Rightarrow> Inl e
      | Inr None \<Rightarrow> Inr init
      | Inr (Some stored) \<Rightarrow>
          (if stored = [] then Inr init
           else
             (case json_parse opts stored of
                None \<Rightarrow> Inl SyntaxError
              | Some parsed \<Rightarrow>
                  (if length (persistFields opts) > 0 then
                     (case pick_fields opts parsed [] (persistFields opts) of
                        Inl e \<Rightarrow> Inl e
                      | Inr partialState \<Rightarrow> Inr (spread2 init partialState))
                   else Inr (spread2 init parsed)))))"

text \<open>
  \<open>loadState\<close>. \<open>!persistKey\<close> holds of \<open>undefined\<close> and of the empty string. The \<open>catch\<close>
  turns every exception of the body into \<open>initialState\<close>.
\<close>

definition loadState :: "context_options \<Rightarrow> local_storage \<Rightarrow> jsval \<Rightarrow> error + jsval" where
  "loadState opts ls init =
     (case persistKey opts of
        None \<Rightarrow> Inr init
      | Some key \<Rightarrow>
          (if key = [] then Inr init
           else
             (case loadState_try opts key ls init of
                Inl e \<Rightarrow> Inr init
              | Inr loaded \<Rightarrow> Inr loaded)))"

text \<open>The body of the \<open>try\<close> of \<open>saveState\<close>.\<close>

definition saveState_try ::
  "context_options \<Rightarrow> string \<Rightarrow> jsval \<Rightarrow> local_storage \<Rightarrow> error + local_storage" where
  "saveState_try opts key state ls =
     (let isObjectState = (typeof state = TObject \<and> \<not> loose_null state) in
      if \<not> isObjectState then setItem ls key (json_stringify opts state)
      else if \<not> length (persistFields opts) > 0
      then setItem ls key (json_stringify opts state)
      else
        (case pick_fields opts state [] (persistFields opts) of
           Inl e \<Rightarrow> Inl e
         | Inr persistObject \<Rightarrow> setItem ls key (json_stringify opts persistObject)))"

text \<open>\<open>saveState\<close>: an exception of the body is caught and only logged.\<close>

definition saveState :: "context_options \<Rightarrow> jsval \<Rightarrow> local_storage \<Rightarrow> local_storage" where
  "saveState opts state ls =
     (case persistKey opts of
        None \<Rightarrow> ls
      | Some key \<Rightarrow>
          (if key = [] then ls
           else
             (case saveState_try opts key state ls of
                Inl e \<Rightarrow> ls
              | Inr ls' \<Rightarrow> ls')))"

text \<open>
  The state behind \<open>useContextStoreData\<close>: the value of the \<open>store\<close> ref, the registered
  subscribers in the order of their registration, the callbacks called so far, and the
  storage.
\<close>

record context_store =
  current :: jsval
  subscribers :: "nat list"
  called :: "nat list"
  storage :: local_storage

definition useContextStoreData ::
  "context_options \<Rightarrow> local_storage \<Rightarrow> jsval \<Rightarrow> error + context_store" where
  "useContextStoreData opts ls init =
     (case loadState opts ls init of
        Inl e \<Rightarrow> Inl e
      | Inr loaded \<Rightarrow> Inr \<lparr> current = loaded, subscribers = [], called = [], storage = ls \<rparr>)"

text \<open>The candidate next state of \<open>set\<close> (lines 79 to 116).\<close>

definition nextState_ctx :: "context_options \<Rightarrow> context_store \<Rightarrow> update \<Rightarrow> error + jsval" where
  "nextState_ctx opts c upd =
     (case upd of
        Mutator f \<Rightarrow>
          (if typeof (current c) \<noteq> TObject \<or> current c = VNull then Inr (snd (f (current c)))
           else Inr (fst (f (deepClone (cloneable opts) (current c)))))
      | Plain u \<Rightarrow>
          (if truthy u \<and> typeof u = TObject \<and> has_property opts u ''type'' \<and> reducer opts \<noteq> None
           then
             (case reducer opts of
                Some r \<Rightarrow> Inr (r (deepClone (cloneable opts) (current c)) u)
              | None \<Rightarrow> Inr u)
           else if truthy u \<and> typeof u = TObject \<and> \<not> isArray u \<and>
                   truthy (current c) \<and> typeof (current c) = TObject \<and> \<not> isArray (current c)
           then deepMerge (cloneable opts) (current c) u
           else Inr u))"

text \<open>\<open>set\<close> of the context store.\<close>

definition set_ctx :: "context_options \<Rightarrow> update \<Rightarrow> context_store \<Rightarrow> error + context_store" where
  "set_ctx opts upd c =
     (case nextState_ctx opts c upd of
        Inl e \<Rightarrow> Inl e
      | Inr next \<Rightarrow>
          (if \<not> deepEqual (current c) next then
             Inr (c\<lparr>current := next,
                    storage := saveState opts next (storage c),
                    called := called c @ subscribers c\<rparr>)
           else Inr c))"

definition subscribe :: "nat \<Rightarrow> context_store \<Rightarrow> context_store" where
  "subscribe callback c =
     (if callback \<in> set (subscribers c) then c
      else c\<lparr>subscribers := subscribers c @ [callback]\<rparr>)"

section \<open>Values with object identities\<close>

text \<open>
  Whether a caller can reach the store through what \<open>getHistory\<close> hands out depends on
  which objects are shared, which the trees above cannot say. Here every array and every
  record carries the identity of its object (the order of its allocation); the same
  identity at two places is the same object. \<open>erase\<close> forgets the identities, \<open>objects\<close>
  collects them, and \<open>mutate a c\<close> is any write to the object \<open>a\<close>: wherever it
  occurs, it now reads \<open>c\<close>.
\<close>

datatype tval =
    TUndef
  | TNull
  | TBool bool
  | TNum int
  | TStr string
  | TFun nat
  | TArr nat "tval list"
  | TObj nat "(string \<times> tval) list"

fun erase :: "tval \<Rightarrow> jsval" where
  "erase TUndef = VUndef"
| "erase TNull = VNull"
| "erase (TBool b) = VBool b"
| "erase (TNum n) = VNum n"
| "erase (TStr s) = VStr s"
| "erase (TFun f) = VFun f"
| "erase (TArr a xs) = VArr (map erase xs)"
| "erase (TObj a kvs) = VObj (map (\<lambda>kv. (fst kv, erase (snd kv))) kvs)"

fun objects :: "tval \<Rightarrow> nat set" where
  "objects (TArr a xs) = insert a (\<Union>x \<in> set xs. objects x)"
| "objects (TObj a kvs) = insert a (\<Union>kv \<in> set kvs. objects (snd kv))"
| "objects v = {}"

fun mutate :: "nat \<Rightarrow> tval \<Rightarrow> tval \<Rightarrow> tval" where
  "mutate a c (TArr b xs) = (if a = b then c else TArr b (map (mutate a c) xs))"
| "mutate a c (TObj b kvs) =
     (if a = b then c else TObj b (map (\<lambda>kv. (fst kv, mutate a c (snd kv))) kvs))"
| "mutate a c v = v"

text \<open>\<open>source[key]\<close> on the fields of a record.\<close>

definition field_of :: "(string \<times> tval) list \<Rightarrow> string \<Rightarrow> tval" where
  "field_of kvs key = (case map_of kvs key of Some v \<Rightarrow> v | None \<Rightarrow> TUndef)"

lemma size_field_of:
  "size (field_of kvs key) < Suc (size_list (size_prod (\<lambda>_. 0) size) kvs)"
proof (cases "map_of kvs key")
  case None
  then show ?thesis by (simp add: field_of_def)
next
  case (Some v)
  have "map_of kvs key = Some v \<Longrightarrow> size v < Suc (size_list (size_prod (\<lambda>_. 0) size) kvs)"
    by (induction kvs) (auto split: if_splits)
  then show ?thesis using Some by (simp add: field_of_def)
qed

lemma length_le_size_list: "length xs \<le> size_list f xs"
  by (induction xs) auto

text \<open>
  \<open>deepClonePolyfill\<close> with its allocations: \<open>n\<close> is the identity the next new object gets,
  and the result carries the counter on. \<open>source.map(...)\<close> and \<open>{}\<close> allocate the new array
  or record, then the elements are cloned in order; the loop over the keys of a record
  is \<open>deepClonePolyfill_keys\<close>.
\<close>

function deepClonePolyfill_t :: "nat \<Rightarrow> tval \<Rightarrow> tval \<times> nat"
  and deepClonePolyfill_ts :: "nat \<Rightarrow> tval list \<Rightarrow> tval list \<times> nat"
  and deepClonePolyfill_keys ::
    "nat \<Rightarrow> (string \<times> tval) list \<Rightarrow> (string \<times> tval) list \<Rightarrow> string list
       \<Rightarrow> (string \<times> tval) list \<times> nat" where
  "deepClonePolyfill_t n (TArr a xs) = (case deepClonePolyfill_ts (Suc n) xs of (ys, m) \<Rightarrow> (TArr n ys, m))"
| "deepClonePolyfill_t n (TObj a kvs) =
     (case deepClonePolyfill_keys (Suc n) kvs [] (map fst kvs) of (fs, m) \<Rightarrow> (TObj n fs, m))"
| "deepClonePolyfill_t n TUndef = (TUndef, n)"
| "deepClonePolyfill_t n TNull = (TNull, n)"
| "deepClonePolyfill_t n (TBool b) = (TBool b, n)"
| "deepClonePolyfill_t n (TNum i) = (TNum i, n)"
| "deepClonePolyfill_t n (TStr s) = (TStr s, n)"
| "deepClonePolyfill_t n (TFun f) = (TFun f, n)"
| "deepClonePolyfill_ts n [] = ([], n)"
| "deepClonePolyfill_ts n (x # xs) =
     (case deepClonePolyfill_t n x of (y, m) \<Rightarrow> (case deepClonePolyfill_ts m xs of (ys, k) \<Rightarrow> (y # ys, k)))"
| "deepClonePolyfill_keys n kvs clonedObject [] = (clonedObject, n)"
| "deepClonePolyfill_keys n kvs clonedObject (key # keys) =
     (case deepClonePolyfill_t n (field_of kvs key) of
        (c, m) \<Rightarrow> deepClonePolyfill_keys m kvs (AList.update key c clonedObject) keys)"
  by pat_completeness auto

termination
  apply (relation
        "(\<lambda>x. case x of Inl (n, v) \<Rightarrow> size v
                     | Inr (Inl (n, xs)) \<Rightarrow> size_list size xs
                     | Inr (Inr (n, kvs, acc, keys)) \<Rightarrow> Suc (size_list (size_prod (\<lambda>_. 0) size) kvs))
         <*mlex*>
         measure (\<lambda>x. case x of Inl (n, v) \<Rightarrow> Suc (size v)
                     | Inr (Inl (n, xs)) \<Rightarrow> length xs
                     | Inr (Inr (n, kvs, acc, keys)) \<Rightarrow> length keys)")
  apply (auto simp: wf_mlex mlex_less mlex_leq size_field_of)
  apply (rule mlex_leq)
   apply (simp_all add: less_Suc_eq_le le_SucI[OF length_le_size_list])
  done

text \<open>
  The platform's \<open>structuredClone\<close> on these values: it refuses a value that holds a
  callable, and else copies every array and record into a new object. (An object that
  occurs at two places of one value is shared again in the platform's copy, while this
  copy has one new object per place; the objects of the copy are new either way.) A
  callable is handed on as it is by the polyfill; it is not an object that \<open>mutate\<close> can
  write to.
\<close>

fun fresh_copy :: "nat \<Rightarrow> tval \<Rightarrow> tval \<times> nat"
  and fresh_copies :: "nat \<Rightarrow> tval list \<Rightarrow> tval list \<times> nat"
  and fresh_fields :: "nat \<Rightarrow> (string \<times> tval) list \<Rightarrow> (string \<times> tval) list \<times> nat" where
  "fresh_copy n (TArr a xs) = (case fresh_copies (Suc n) xs of (ys, m) \<Rightarrow> (TArr n ys, m))"
| "fresh_copy n (TObj a kvs) = (case fresh_fields (Suc n) kvs of (fs, m) \<Rightarrow> (TObj n fs, m))"
| "fresh_copy n TUndef = (TUndef, n)"
| "fresh_copy n TNull = (TNull, n)"
| "fresh_copy n (TBool b) = (TBool b, n)"
| "fresh_copy n (TNum i) = (TNum i, n)"
| "fresh_copy n (TStr s) = (TStr s, n)"
| "fresh_copy n (TFun f) = (TFun f, n)"
| "fresh_copies n [] = ([], n)"
| "fresh_copies n (x # xs) =
     (case fresh_copy n x of (y, m) \<Rightarrow> (case fresh_copies m xs of (ys, k) \<Rightarrow> (y # ys, k)))"
| "fresh_fields n [] = ([], n)"
| "fresh_fields n (kv # kvs) =
     (case fresh_copy n (snd kv) of
        (y, m) \<Rightarrow> (case fresh_fields m kvs of (fs, k) \<Rightarrow> ((fst kv, y) # fs, k)))"

definition structuredClone_t :: "nat \<Rightarrow> tval \<Rightarrow> error + tval \<times> nat" where
  "structuredClone_t n source =
     (if has_callable (erase source) then Inl DataCloneError else Inr (fresh_copy n source))"

text \<open>\<open>deepClone\<close> and \<open>history.map((h) => deepClone(h))\<close> with their allocations.\<close>

definition deepClone_t :: "bool \<Rightarrow> nat \<Rightarrow> tval \<Rightarrow> tval \<times> nat" where
  "deepClone_t sc n source =
     (if sc then
        (case structuredClone_t n source of
           Inr cloned \<Rightarrow> cloned
         | Inl e \<Rightarrow> deepClonePolyfill_t n source)
      else deepClonePolyfill_t n source)"

fun clone_each :: "bool \<Rightarrow> nat \<Rightarrow> tval list \<Rightarrow> tval list \<times> nat" where
  "clone_each sc n [] = ([], n)"
| "clone_each sc n (h # hs) =
     (case deepClone_t sc n h of
        (c, m) \<Rightarrow> (case clone_each sc m hs of (cs, k) \<Rightarrow> (c # cs, k)))"

text \<open>
  The closure of \<open>createDataStore\<close> once more, with identities, and with the counter of
  the allocator. \<open>getHistory\<close> allocates the array it returns and the clones in it;
  \<open>untag\<close> is the store of the sections above that a store with identities stands for.
\<close>

record tagged_store =
  t_structured :: bool
  t_initialState :: tval
  t_store :: tval
  t_history :: "tval list"
  t_currentIndex :: rat
  t_pending :: "(nat \<times> tval) option"
  t_frames :: nat
  t_next :: nat

definition getHistory_t :: "tagged_store \<Rightarrow> tval \<times> tagged_store" where
  "getHistory_t s =
     (case clone_each (t_structured s) (Suc (t_next s)) (t_history s) of
        (cs, m) \<Rightarrow> (TArr (t_next s) cs, s\<lparr>t_next := m\<rparr>))"

definition untag :: "tagged_store \<Rightarrow> data_store" where
  "untag s =
     \<lparr> structured = t_structured s, initialState = erase (t_initialState s),
       store = erase (t_store s), history = map erase (t_history s),
       currentIndex = t_currentIndex s,
       pending = map_option (\<lambda>p. (fst p, erase (snd p))) (t_pending s),
       frames = t_frames s \<rparr>"

definition store_objects :: "tagged_store \<Rightarrow> nat set" where
  "store_objects s =
     objects (t_initialState s) \<union> objects (t_store s) \<union> (\<Union>h \<in> set (t_history s). objects h) \<union>
     (case t_pending s of None \<Rightarrow> {} | Some p \<Rightarrow> objects (snd p))"

definition mutate_store :: "nat \<Rightarrow> tval \<Rightarrow> tagged_store \<Rightarrow> tagged_store" where
  "mutate_store a c s =
     s\<lparr>t_initialState := mutate a c (t_initialState s),
       t_store := mutate a c (t_store s),
       t_history := map (mutate a c) (t_history s),
       t_pending := map_option (\<lambda>p. (fst p, mutate a c (snd p))) (t_pending s)\<rparr>"

definition example_tagged_store :: tagged_store where
  "example_tagged_store =
     \<lparr> t_structured = True,
       t_initialState = TObj 0 [(''rows'', TArr 1 [])],
       t_store = TObj 2 [(''rows'', TArr 3 [TNum 1])],
       t_history = [TObj 4 [(''rows'', TArr 5 [])], TObj 6 [(''rows'', TArr 7 [TNum 1])]],
       t_currentIndex = 1, t_pending = None, t_frames = 1, t_next = 8 \<rparr>"

section \<open>Notions the properties are stated with\<close>

text \<open>
  The cursor invariant of the data model, with the cap on the history: at most
  \<open>MAX_HISTORY\<close> entries, and the cursor is an integer with
  \<open>0 \<le> currentIndex < history.length\<close>.
\<close>

definition store_inv :: "data_store \<Rightarrow> bool" where
  "store_inv s =
     (int (length (history s)) \<le> MAX_HISTORY \<and> of_int \<lfloor>currentIndex s\<rfloor> = currentIndex s \<and>
      0 \<le> currentIndex s \<and> currentIndex s < of_nat (length (history s)))"

text \<open>An event that does not call \<open>rollbackTo\<close> with a finite number that is no integer.\<close>

fun whole_index :: "event \<Rightarrow> bool" where
  "whole_index (RollbackTo (Finite q)) = (of_int \<lfloor>q\<rfloor> = q)"
| "whole_index ev = True"

text \<open>An accepted change: \<open>setStore\<close> finds the candidate different from the live value.\<close>

definition accepted :: "data_store \<Rightarrow> update \<Rightarrow> bool" where
  "accepted s upd =
     (case nextState s upd of Inl e \<Rightarrow> False | Inr next \<Rightarrow> \<not> deepEqual (store s) next)"

text \<open>
  A burst: each change comes \<open>gap\<close> time units after the one before it. In an accepted
  burst every gap is shorter than the debounce window and every change is accepted.
\<close>

fun burst :: "data_store \<Rightarrow> (nat \<times> update) list \<Rightarrow> data_store" where
  "burst s [] = s"
| "burst s ((gap, upd) # rest) = burst (apply_event (elapse gap s) (SetStore upd)) rest"

fun burst_accepted :: "data_store \<Rightarrow> (nat \<times> update) list \<Rightarrow> bool" where
  "burst_accepted s [] = True"
| "burst_accepted s ((gap, upd) # rest) =
     (gap < DEBOUNCE \<and> accepted (elapse gap s) upd \<and>
      burst_accepted (apply_event (elapse gap s) (SetStore upd)) rest)"

text \<open>
  Inside a burst that started in \<open>s\<close>: nothing has been pushed yet, and the timer waits
  with the whole delay and a clone of the live value.
\<close>

definition waiting :: "data_store \<Rightarrow> data_store \<Rightarrow> bool" where
  "waiting s s' =
     (history s' = history s \<and> currentIndex s' = currentIndex s \<and>
      structured s' = structured s \<and>
      pending s' = Some (DEBOUNCE, deepClone (structured s) (store s')))"

text \<open>
  A platform for the examples: every object inherits the methods of \<open>Object.prototype\<close>,
  each of them an opaque callable of its own.
\<close>

definition object_prototype_names :: "string list" where
  "object_prototype_names =
     [''constructor'', ''hasOwnProperty'', ''isPrototypeOf'', ''propertyIsEnumerable'',
      ''toLocaleString'', ''toString'', ''valueOf'']"

definition object_prototype :: "jsval \<Rightarrow> string \<Rightarrow> jsval option" where
  "object_prototype v key =
     (if ((typeof v = TObject \<and> v \<noteq> VNull) \<or> typeof v = TFunction) \<and>
         key \<in> set object_prototype_names
      then Some (VFun (length (takeWhile (\<lambda>name. name \<noteq> key) object_prototype_names)))
      else None)"

text \<open>A context store without reducer and without persistence, and one that persists
  the field \<open>columnVisibility\<close> (the options of \<open>stores/global.store\<close>) with a parser that
  knows one text.\<close>

definition plain_options :: context_options where
  "plain_options =
     \<lparr> cloneable = True, json_parse = (\<lambda>text. None), json_stringify = (\<lambda>v. ''?''),
       inherited = object_prototype,
       reducer = None, persistKey = None, persistFields = [] \<rparr>"

definition global_options :: context_options where
  "global_options =
     \<lparr> cloneable = True,
       json_parse = (\<lambda>text. if text = ''{}'' then Some (VObj []) else None),
       json_stringify = (\<lambda>v. ''?''),
       inherited = object_prototype,
       reducer = None, persistKey = Some ''VDwqVtPbjI8v/jWe+XIbWA=='',
       persistFields = [''columnVisibility''] \<rparr>"

text \<open>
  A hydration failure: a slot is configured, and access to the storage is denied, or the
  slot is absent, or its content does not parse.
\<close>

definition hydration_failure :: "context_options \<Rightarrow> local_storage \<Rightarrow> bool" where
  "hydration_failure opts ls =
     (case persistKey opts of
        None \<Rightarrow> False
      | Some key \<Rightarrow>
          key \<noteq> [] \<and>
          (\<not> granted ls \<or>
           (case map_of (items ls) key of
              None \<Rightarrow> True
            | Some stored \<Rightarrow> json_parse opts stored = None)))"

text \<open>The value the loop of \<open>deepMerge\<close> assigns at a key whose value in \<open>source\<close> is
  \<open>sv\<close> and in \<open>result\<close> is \<open>tv\<close>.\<close>

definition merged_at :: "bool \<Rightarrow> jsval \<Rightarrow> jsval \<Rightarrow> jsval" where
  "merged_at sc tv sv =
     (if isPlainObject tv \<and> isPlainObject sv
      then (case deepMerge sc tv sv of Inr m \<Rightarrow> m | Inl e \<Rightarrow> VUndef)
      else sv)"

text \<open>
  Structural identity, in the words of the specification of \<open>deepEqual\<close>: the same scalar
  value, or sequences of the same length with pairwise identical elements in order, or
  records with the same key set and identical values per key; a sequence and a record are
  never identical.
\<close>

function structurally_identical :: "jsval \<Rightarrow> jsval \<Rightarrow> bool" where
  "structurally_identical (VArr xs) (VArr ys) =
     (length xs = length ys \<and>
      list_all (\<lambda>i. structurally_identical (xs ! i) (ys ! i)) [0..<length xs])"
| "structurally_identical (VObj kas) (VObj kbs) =
     (set (map fst kas) = set (map fst kbs) \<and>
      list_all (\<lambda>key. structurally_identical (get_prop (VObj kas) key) (get_prop (VObj kbs) key))
        (map fst kas))"
| "structurally_identical (VArr xs) (VObj kbs) = False"
| "structurally_identical (VObj kas) (VArr ys) = False"
| "structurally_identical VUndef b = (b = VUndef)"
| "structurally_identical VNull b = (b = VNull)"
| "structurally_identical (VBool x) b = (b = VBool x)"
| "structurally_identical (VNum x) b = (b = VNum x)"
| "structurally_identical (VStr x) b = (b = VStr x)"
| "structurally_identical (VFun x) b = (b = VFun x)"
| "structurally_identical (VArr xs) VUndef = False"
| "structurally_identical (VArr xs) VNull = False"
| "structurally_identical (VArr xs) (VBool y) = False"
| "structurally_identical (VArr xs) (VNum y) = False"
| "structurally_identical (VArr xs) (VStr y) = False"
| "structurally_identical (VArr xs) (VFun y) = False"
| "structurally_identical (VObj kas) VUndef = False"
| "structurally_identical (VObj kas) VNull = False"
| "structurally_identical (VObj kas) (VBool y) = False"
| "structurally_identical (VObj kas) (VNum y) = False"
| "structurally_identical (VObj kas) (VStr y) = False"
| "structurally_identical (VObj kas) (VFun y) = False"
  by pat_completeness auto

termination structurally_identical
proof (relation "measure (\<lambda>(a, b). size a)", goal_cases)
  case 1
  show ?case by simp
next
  case (2 xs ys i)
  then have "xs ! i \<in> set xs" by simp
  then show ?case using size_elements[of "xs ! i" "VArr xs"] by simp
next
  case (3 kas kbs key)
  then show ?case using size_get_prop[of key "VObj kas"] by simp
qed

text \<open>An array read as the record of its indices, at every depth.\<close>

fun as_record :: "jsval \<Rightarrow> jsval" where
  "as_record (VArr xs) = VObj (zip (map index_key [0..<length xs]) (map as_record xs))"
| "as_record (VObj kvs) = VObj (map (\<lambda>kv. (fst kv, as_record (snd kv))) kvs)"
| "as_record v = v"

text \<open>An array or a record: \<open>typeof v === "object"\<close> and not \<open>null\<close>.\<close>

definition container :: "jsval \<Rightarrow> bool" where
  "container v = (typeof v = TObject \<and> v \<noteq> VNull)"

section \<open>Facts about the structural utilities\<close>

text \<open>\<open>deepEqual\<close> holds of a value and itself, which is what its first line answers for
  one object compared with itself. The values of the model hold no \<open>NaN\<close>, the one value
  for which the source answers \<open>false\<close> here.\<close>

lemma deepEqual_refl: "deepEqual v v"
proof (induction v)
  case (VArr xs)
  have "list_all (\<lambda>(item, index). deepEqual item (nth_js xs index)) (zip xs [0..<length xs])"
    using VArr by (auto simp: list_all_iff nth_js_def set_zip)
  then show ?case by (subst deepEqual.simps) simp
next
  case (VObj kvs)
  have "deepEqual (get_prop (VObj kvs) k) (get_prop (VObj kvs) k)" if "k \<in> fst ` set kvs" for k
  proof -
    from that obtain w where w: "map_of kvs k = Some w"
      by (cases "map_of kvs k") (auto simp: map_of_eq_None_iff)
    then have "(k, w) \<in> set kvs" by (rule map_of_SomeD)
    then have "deepEqual w w" using VObj by fastforce
    then show ?thesis using w by simp
  qed
  then show ?case by (subst deepEqual.simps) (auto simp: list_all_iff)
qed (simp_all add: deepEqual.simps)

text \<open>On trees, a clone of a well formed value is that value.\<close>

lemma foldl_update_fresh:
  "distinct ks \<Longrightarrow> set ks \<inter> fst ` set acc = {} \<Longrightarrow>
   foldl (\<lambda>obj key. AList.update key (g key) obj) acc ks = acc @ map (\<lambda>key. (key, g key)) ks"
proof (induction ks arbitrary: acc)
  case Nil
  then show ?case by simp
next
  case (Cons k ks)
  have u: "AList.update k (g k) acc = acc @ [(k, g k)]"
    using Cons.prems(2) by (induction acc) auto
  have "set ks \<inter> fst ` set (acc @ [(k, g k)]) = {}"
    using Cons.prems by auto
  then show ?case
    using Cons.IH[of "acc @ [(k, g k)]"] Cons.prems(1) u by simp
qed

lemma map_of_distinct_entry:
  "distinct (map fst kvs) \<Longrightarrow> kv \<in> set kvs \<Longrightarrow> map_of kvs (fst kv) = Some (snd kv)"
  by (cases kv) simp

lemma deepClonePolyfill_well_formed: "well_formed v \<Longrightarrow> deepClonePolyfill v = v"
proof (induction v)
  case (VArr xs)
  then have "map deepClonePolyfill xs = xs"
    by (auto simp: list_all_iff intro: map_idI)
  then show ?case by (subst deepClonePolyfill.simps) simp
next
  case (VObj kvs)
  have d: "distinct (map fst kvs)" using VObj.prems by simp
  have g: "(\<lambda>key. (key, deepClonePolyfill (get_prop (VObj kvs) key))) (fst kv) = kv"
    if "kv \<in> set kvs" for kv
  proof -
    have "map_of kvs (fst kv) = Some (snd kv)"
      using d that by (rule map_of_distinct_entry)
    moreover have "deepClonePolyfill (snd kv) = snd kv"
      using VObj.IH[of kv "snd kv"] VObj.prems that
      by (cases kv) (auto simp: list_all_iff)
    ultimately show ?thesis by simp
  qed
  have "foldl (\<lambda>obj key. AList.update key (deepClonePolyfill (get_prop (VObj kvs) key)) obj)
          [] (map fst kvs)
        = map (\<lambda>key. (key, deepClonePolyfill (get_prop (VObj kvs) key))) (map fst kvs)"
    using foldl_update_fresh[OF d, of "[]"] by simp
  also have "\<dots> = kvs"
    using g by (simp add: map_idI comp_def)
  finally show ?case by (subst deepClonePolyfill.simps) simp
qed (simp_all add: deepClonePolyfill.simps)

lemma deepClone_well_formed [simp]: "well_formed v \<Longrightarrow> deepClone sc v = v"
  by (simp add: deepClone_def structuredClone_def deepClonePolyfill_well_formed)

section \<open>The history stays bounded and the cursor inside it\<close>

text \<open>The history is never empty and never longer than \<open>MAX_HISTORY\<close>, whatever is called.\<close>

lemma length_splice_from: "length (splice_from start h) \<le> length h"
  by (simp add: splice_from_def Let_def)

lemma bounded_pushHistory:
  "length (history s) \<le> 100 \<Longrightarrow>
   history (pushHistory v s) \<noteq> [] \<and> length (history (pushHistory v s)) \<le> 100"
proof -
  assume a: "length (history s) \<le> 100"
  let ?k = "splice_from (currentIndex s + 1) (history s)"
  have k: "length ?k \<le> 100" using length_splice_from[of "currentIndex s + 1" "history s"] a by simp
  show ?thesis
  proof (cases "length ?k = 100")
    case True
    then have "?k \<noteq> []" by auto
    then show ?thesis using True by (simp add: pushHistory_def Let_def MAX_HISTORY_def)
  next
    case False
    then show ?thesis using k by (simp add: pushHistory_def Let_def MAX_HISTORY_def)
  qed
qed

lemma bounded_apply_event:
  assumes "history s \<noteq> [] \<and> length (history s) \<le> 100"
  shows "history (apply_event s ev) \<noteq> [] \<and> length (history (apply_event s ev)) \<le> 100"
proof (cases ev)
  case (SetStore upd)
  then show ?thesis using assms
    by (auto simp: setStore_def notifySubscribers_def Let_def split: sum.splits if_splits)
next
  case (Elapse d)
  then show ?thesis using assms bounded_pushHistory[of "s\<lparr>pending := None\<rparr>"]
    by (auto simp: elapse_def split: option.splits)
next
  case Undo
  then show ?thesis using assms by (simp add: undo_def notifySubscribers_def)
next
  case Redo
  then show ?thesis using assms by (simp add: redo_def notifySubscribers_def)
next
  case (RollbackTo i)
  then show ?thesis using assms by (cases i) (simp_all add: notifySubscribers_def)
next
  case ResetStore
  then show ?thesis by (simp add: resetStore_def notifySubscribers_def)
qed

lemma history_bounded:
  "history (run (createDataStore sc init) evs) \<noteq> [] \<and>
   int (length (history (run (createDataStore sc init) evs))) \<le> MAX_HISTORY"
proof -
  have "history s \<noteq> [] \<and> length (history s) \<le> 100 \<Longrightarrow>
        history (foldl apply_event s evs) \<noteq> [] \<and> length (history (foldl apply_event s evs)) \<le> 100"
    for s
  proof (induction evs arbitrary: s)
    case Nil
    then show ?case by simp
  next
    case (Cons ev evs)
    show ?case using Cons.IH[OF bounded_apply_event[OF Cons.prems, of ev]] by simp
  qed
  from this[of "createDataStore sc init"] show ?thesis
    by (simp add: run_def createDataStore_def Let_def MAX_HISTORY_def)
qed

text \<open>The cursor stays an index of the history as long as \<open>rollbackTo\<close> is given integers.\<close>

lemma inv_cursor:
  assumes "store_inv s"
  obtains n where "currentIndex s = of_nat n" "n < length (history s)" "length (history s) \<le> 100"
proof -
  let ?n = "nat \<lfloor>currentIndex s\<rfloor>"
  from assms have w: "of_int \<lfloor>currentIndex s\<rfloor> = currentIndex s" and p: "0 \<le> currentIndex s"
    and u: "currentIndex s < of_nat (length (history s))" and l: "length (history s) \<le> 100"
    by (simp_all add: store_inv_def MAX_HISTORY_def)
  from p have f: "0 \<le> \<lfloor>currentIndex s\<rfloor>" by simp
  have c: "currentIndex s = of_nat ?n"
  proof -
    have "rat_of_nat ?n = of_int (int ?n)" by simp
    also have "\<dots> = of_int \<lfloor>currentIndex s\<rfloor>" using f by simp
    finally show ?thesis using w by simp
  qed
  from u c have "rat_of_nat ?n < of_nat (length (history s))" by simp
  then have b: "?n < length (history s)" by (simp only: of_nat_less_iff)
  from c b l show ?thesis by (rule that)
qed

lemma floor_succ: "q = rat_of_nat n \<Longrightarrow> nat \<lfloor>q + 1\<rfloor> = Suc n"
proof -
  assume "q = rat_of_nat n"
  then have "q + 1 = rat_of_nat (Suc n)" by simp
  then show ?thesis by (simp only: floor_of_nat nat_int)
qed

lemma history_at_index: "m < length h \<Longrightarrow> history_at h (rat_of_nat m) = h ! m"
  by (simp add: history_at_def)

lemma inv_intro:
  "length h \<le> 100 \<Longrightarrow> n < length h \<Longrightarrow> history s = h \<Longrightarrow> currentIndex s = of_nat n \<Longrightarrow>
   store_inv s"
  by (simp add: store_inv_def MAX_HISTORY_def)

lemma inv_create: "store_inv (createDataStore sc init)"
  by (simp add: store_inv_def createDataStore_def Let_def MAX_HISTORY_def)

lemma inv_pending [simp]: "store_inv (s\<lparr>pending := p\<rparr>) = store_inv s"
  by (simp add: store_inv_def)

lemma inv_setStore: "store_inv s \<Longrightarrow> setStore upd s = Inr s' \<Longrightarrow> store_inv s'"
  by (auto simp: setStore_def store_inv_def notifySubscribers_def Let_def
           split: sum.splits if_splits)

lemma pushHistory_spliced:
  assumes "store_inv s"
  shows "splice_from (currentIndex s + 1) (history s) = take (nat \<lfloor>currentIndex s + 1\<rfloor>) (history s)"
proof -
  from assms obtain n where n: "currentIndex s = of_nat n" "n < length (history s)"
    by (rule inv_cursor)
  have e: "currentIndex s + 1 = of_nat (Suc n)" using n(1) by simp
  have f: "\<lfloor>rat_of_nat (Suc n)\<rfloor> = int (Suc n)" by (rule floor_of_nat)
  have p: "\<not> rat_of_nat (Suc n) < 0" by (simp only: of_nat_less_0_iff not_False_eq_True)
  show ?thesis unfolding e splice_from_def to_integer_def Let_def using n(2) f p
    by (simp add: min_def)
qed

lemma pushHistory_take:
  assumes "store_inv s" and "currentIndex s = of_nat n"
  shows "splice_from (currentIndex s + 1) (history s) = take (Suc n) (history s)"
  using pushHistory_spliced[OF assms(1)] by (simp only: floor_succ[OF assms(2)])

lemma pushHistory_cases:
  assumes "store_inv s" and "currentIndex s = of_nat n" and "n < length (history s)"
  shows "Suc n = 100 \<Longrightarrow>
           history (pushHistory v s) = tl (take (Suc n) (history s) @ [v]) \<and>
           currentIndex (pushHistory v s) = of_nat 99"
    and "Suc n \<noteq> 100 \<Longrightarrow> length (history s) \<le> 100 \<Longrightarrow>
           history (pushHistory v s) = take (Suc n) (history s) @ [v] \<and>
           currentIndex (pushHistory v s) = of_nat (Suc n)"
proof -
  let ?k = "take (Suc n) (history s)"
  have sp: "splice_from (currentIndex s + 1) (history s) = ?k"
    by (rule pushHistory_take[OF assms(1,2)])
  have lk: "length ?k = Suc n" using assms(3) by simp
  have p: "pushHistory v s =
      (if int (length (?k @ [v])) > MAX_HISTORY
       then s\<lparr>history := tl (?k @ [v]), currentIndex := of_nat (length (?k @ [v])) - 1 - 1\<rparr>
       else s\<lparr>history := ?k @ [v], currentIndex := of_nat (length (?k @ [v])) - 1\<rparr>)"
    unfolding pushHistory_def sp by (simp only: Let_def)
  have ln: "length (?k @ [v]) = Suc (Suc n)" using lk by simp
  show "history (pushHistory v s) = tl (?k @ [v]) \<and> currentIndex (pushHistory v s) = of_nat 99"
    if "Suc n = 100"
    unfolding p ln using that by (simp add: MAX_HISTORY_def)
  show "history (pushHistory v s) = ?k @ [v] \<and> currentIndex (pushHistory v s) = of_nat (Suc n)"
    if "Suc n \<noteq> 100" "length (history s) \<le> 100"
    unfolding p ln using that assms(3) by (simp add: MAX_HISTORY_def)
qed

lemma inv_pushHistory:
  assumes "store_inv s"
  shows "store_inv (pushHistory v s)"
proof -
  from assms obtain n where n: "currentIndex s = of_nat n" "n < length (history s)"
      "length (history s) \<le> 100"
    by (rule inv_cursor)
  let ?k = "take (Suc n) (history s)"
  have lk: "length ?k = Suc n" using n(2) by simp
  show ?thesis
  proof (cases "Suc n = 100")
    case True
    note hc = pushHistory_cases(1)[OF assms n(1,2) True, of v]
    have l: "length (tl (?k @ [v])) = 100" using True lk by simp
    have l1: "length (tl (?k @ [v])) \<le> 100" and l2: "99 < length (tl (?k @ [v]))"
      by (simp_all only: l)
    show ?thesis by (rule inv_intro[OF l1 l2 conjunct1[OF hc] conjunct2[OF hc]])
  next
    case False
    note hc = pushHistory_cases(2)[OF assms n(1,2) False n(3), of v]
    have l: "length (?k @ [v]) = Suc (Suc n)" using lk by simp
    have l1: "length (?k @ [v]) \<le> 100" and l2: "Suc n < length (?k @ [v])"
      unfolding l using False n(2,3) by simp_all
    show ?thesis by (rule inv_intro[OF l1 l2 conjunct1[OF hc] conjunct2[OF hc]])
  qed
qed

lemma inv_elapse: "store_inv s \<Longrightarrow> store_inv (elapse d s)"
  by (auto simp: elapse_def inv_pushHistory split: option.splits)

lemma inv_undo:
  assumes "store_inv s"
  shows "store_inv (undo s)"
proof (cases "currentIndex s > 0")
  case False
  then show ?thesis using assms by (simp add: undo_def)
next
  case True
  from assms obtain n where n: "currentIndex s = of_nat n" "n < length (history s)"
      "length (history s) \<le> 100"
    by (rule inv_cursor)
  from True n(1) have p: "0 < n" by simp
  then have "rat_of_nat (n - 1) = rat_of_nat n - 1" by (simp add: of_nat_diff)
  then have c: "currentIndex s - 1 = of_nat (n - 1)" by (simp only: n(1))
  have h: "history (undo s) = history s" by (simp add: undo_def notifySubscribers_def)
  have i: "currentIndex (undo s) = currentIndex s - 1"
    using True by (simp add: undo_def notifySubscribers_def)
  have l: "n - 1 < length (history s)" using n(2) by simp
  show ?thesis by (rule inv_intro[OF n(3) l h i[unfolded c]])
qed

lemma inv_redo:
  assumes "store_inv s"
  shows "store_inv (redo s)"
proof (cases "currentIndex s < of_nat (length (history s)) - 1")
  case False
  then show ?thesis using assms by (simp add: redo_def)
next
  case True
  from assms obtain n where n: "currentIndex s = of_nat n" "n < length (history s)"
      "length (history s) \<le> 100"
    by (rule inv_cursor)
  from True have "currentIndex s + 1 < of_nat (length (history s))" by simp
  moreover have c: "currentIndex s + 1 = rat_of_nat (Suc n)" by (simp add: n(1))
  ultimately have "rat_of_nat (Suc n) < of_nat (length (history s))" by (simp only:)
  then have l: "Suc n < length (history s)" by (simp only: of_nat_less_iff)
  have h: "history (redo s) = history s" by (simp add: redo_def notifySubscribers_def)
  have i: "currentIndex (redo s) = currentIndex s + 1"
    using True by (simp add: redo_def notifySubscribers_def)
  show ?thesis by (rule inv_intro[OF n(3) l h i[unfolded c]])
qed

lemma inv_rollbackTo:
  "store_inv s \<Longrightarrow> whole_index (RollbackTo i) \<Longrightarrow> store_inv (rollbackTo i s)"
  by (cases i) (auto simp: store_inv_def notifySubscribers_def)

lemma inv_resetStore: "store_inv (resetStore s)"
  by (auto simp: resetStore_def store_inv_def notifySubscribers_def MAX_HISTORY_def)

lemma inv_apply_event: "store_inv s \<Longrightarrow> whole_index ev \<Longrightarrow> store_inv (apply_event s ev)"
  by (cases ev)
     (auto simp: inv_elapse inv_undo inv_redo inv_resetStore
           intro: inv_setStore inv_rollbackTo split: sum.splits)

lemma inv_run: "store_inv s \<Longrightarrow> list_all whole_index evs \<Longrightarrow> store_inv (run s evs)"
  unfolding run_def by (induction evs arbitrary: s) (auto simp: inv_apply_event)

lemma pushHistory_history:
  assumes "store_inv s"
  shows "history (pushHistory v s) =
           (let kept = take (nat \<lfloor>currentIndex s + 1\<rfloor>) (history s) in
            if int (length kept) = MAX_HISTORY then drop 1 kept @ [v] else kept @ [v])"
proof -
  from assms obtain n where n: "currentIndex s = of_nat n" "n < length (history s)"
      "length (history s) \<le> 100"
    by (rule inv_cursor)
  let ?k = "take (Suc n) (history s)"
  have lk: "length ?k = Suc n" using n(2) by simp
  have ne: "?k \<noteq> []" using lk by auto
  show ?thesis unfolding floor_succ[OF n(1)] Let_def
  proof (cases "Suc n = 100")
    case True
    note hc = pushHistory_cases(1)[OF assms n(1,2) True, of v]
    have "tl (?k @ [v]) = drop 1 ?k @ [v]" using ne by (simp add: drop_Suc tl_append2)
    then show "history (pushHistory v s) =
        (if int (length ?k) = MAX_HISTORY then drop 1 ?k @ [v] else ?k @ [v])"
      using conjunct1[OF hc] True lk by (simp add: MAX_HISTORY_def)
  next
    case False
    note hc = pushHistory_cases(2)[OF assms n(1,2) False n(3), of v]
    show "history (pushHistory v s) =
        (if int (length ?k) = MAX_HISTORY then drop 1 ?k @ [v] else ?k @ [v])"
      using conjunct1[OF hc] False lk by (simp add: MAX_HISTORY_def)
  qed
qed

lemma pushHistory_cursor:
  assumes "store_inv s"
  shows "history_at (history (pushHistory v s)) (currentIndex (pushHistory v s)) = v"
proof -
  from assms obtain n where n: "currentIndex s = of_nat n" "n < length (history s)"
      "length (history s) \<le> 100"
    by (rule inv_cursor)
  let ?k = "take (Suc n) (history s)"
  have lk: "length ?k = Suc n" using n(2) by simp
  show ?thesis
  proof (cases "Suc n = 100")
    case True
    note hc = pushHistory_cases(1)[OF assms n(1,2) True, of v]
    have l: "99 < length (tl (?k @ [v]))" using True lk by simp
    have "tl (?k @ [v]) ! 99 = (?k @ [v]) ! 100" using l by (simp add: nth_tl)
    also have "\<dots> = v" using True lk by (simp add: nth_append)
    finally have e: "tl (?k @ [v]) ! 99 = v" .
    show ?thesis unfolding conjunct1[OF hc] conjunct2[OF hc] history_at_index[OF l] by (rule e)
  next
    case False
    note hc = pushHistory_cases(2)[OF assms n(1,2) False n(3), of v]
    have l: "Suc n < length (?k @ [v])" using lk by simp
    have e: "(?k @ [v]) ! Suc n = v" using lk by (simp add: nth_append)
    show ?thesis unfolding conjunct1[OF hc] conjunct2[OF hc] history_at_index[OF l] by (rule e)
  qed
qed

text \<open>
  From its creation on, and whatever is called in between, as long as every \<open>rollbackTo\<close>
  is given an integer (or a number its guard refuses), the history has at most
  \<open>MAX_HISTORY = 100\<close> entries and \<open>0 \<le> currentIndex < history.length\<close>; a push then keeps
  the entries up to the cursor and appends the new one, and when that would make 101
  entries it drops the oldest one.
\<close>

lemma whole_runs_keep_cursor_in_range:
  assumes "list_all whole_index evs"
  shows "let s = run (createDataStore sc init) evs in
     int (length (history s)) \<le> MAX_HISTORY \<and> MAX_HISTORY = 100 \<and>
     0 \<le> currentIndex s \<and> currentIndex s < of_nat (length (history s)) \<and>
     history (pushHistory v s) =
       (let kept = take (nat \<lfloor>currentIndex s + 1\<rfloor>) (history s) in
        if int (length kept) = MAX_HISTORY then drop 1 kept @ [v] else kept @ [v])"
proof -
  have i: "store_inv (run (createDataStore sc init) evs)"
    by (intro inv_run inv_create assms)
  then show ?thesis
    using pushHistory_history[OF i, of v] by (simp add: store_inv_def Let_def MAX_HISTORY_def)
qed

text \<open>
  C3. The history never has more than \<open>MAX_HISTORY = 100\<close> entries (\<open>history_bounded\<close>), and
  the cursor stays in \<open>0 \<le> currentIndex < history.length\<close> while \<open>rollbackTo\<close> is given
  integers (\<open>whole_runs_keep_cursor_in_range\<close>). The guard of \<open>rollbackTo\<close> compares its
  argument with the two bounds and nothing else, so \<open>rollbackTo(0.5)\<close> on a new store
  passes it: the cursor becomes \<open>0.5\<close> and the live value \<open>history[0.5]\<close>, which is
  \<open>undefined\<close>. \<open>undo()\<close> then finds \<open>0.5 > 0\<close> and leaves the cursor at \<open>-0.5\<close>, below \<open>0\<close>,
  and the next push empties the history before it appends.
\<close>

theorem fractional_rollback_leaves_range:
  "let created = createDataStore True (VNum 0);
       rolled = run created [RollbackTo (Finite (1 / 2))];
       undone = run created [RollbackTo (Finite (1 / 2)), Undo];
       pushed = run created [RollbackTo (Finite (1 / 2)), Undo, SetStore (Plain (VNum 1)), Elapse 200]
   in (currentIndex rolled, store rolled, currentIndex undone, store undone,
       currentIndex undone < 0, history undone, history pushed, currentIndex pushed)
      = (1 / 2, VUndef, - (1 / 2), VUndef, True, [VNum 0], [VNum 1], 0)"
  by code_simp

theorem fractional_rollback_leaves_range_witness:
  "currentIndex (run (createDataStore True (VNum 0)) [RollbackTo (Finite (1 / 2)), Undo]) < 0"
  using fractional_rollback_leaves_range by (simp add: Let_def)

section \<open>Debounce coalescing\<close>

lemma accepted_setStore:
  assumes "accepted s upd"
  shows "waiting s (apply_event s (SetStore upd))"
  using assms
  by (auto simp: accepted_def setStore_def waiting_def notifySubscribers_def Let_def
           split: sum.splits)

lemma elapse_waiting:
  assumes "waiting s s'" "gap < DEBOUNCE"
  shows "history (elapse gap s') = history s" "currentIndex (elapse gap s') = currentIndex s"
    "structured (elapse gap s') = structured s" "store (elapse gap s') = store s'"
  using assms by (auto simp: waiting_def elapse_def)

lemma waiting_step:
  assumes "waiting s s'" "gap < DEBOUNCE" "accepted (elapse gap s') upd"
  shows "waiting s (apply_event (elapse gap s') (SetStore upd))"
proof -
  have "waiting (elapse gap s') (apply_event (elapse gap s') (SetStore upd))"
    using assms(3) by (rule accepted_setStore)
  then show ?thesis
    using elapse_waiting[OF assms(1,2)] by (simp add: waiting_def)
qed

lemma waiting_burst:
  "waiting s s' \<Longrightarrow> burst_accepted s' rest \<Longrightarrow> waiting s (burst s' rest)"
proof (induction rest arbitrary: s')
  case Nil
  then show ?case by simp
next
  case (Cons a rest)
  obtain gap upd where a: "a = (gap, upd)" by (cases a)
  from Cons.prems a have "waiting s (apply_event (elapse gap s') (SetStore upd))"
    by (auto simp del: apply_event.simps intro: waiting_step)
  then show ?case using Cons a by (simp del: apply_event.simps)
qed

lemma pushHistory_fields:
  "history s' = history s \<Longrightarrow> currentIndex s' = currentIndex s \<Longrightarrow>
   history (pushHistory v s') = history (pushHistory v s) \<and>
   currentIndex (pushHistory v s') = currentIndex (pushHistory v s) \<and>
   store (pushHistory v s') = store s' \<and> pending (pushHistory v s') = pending s'"
  by (simp add: pushHistory_def Let_def)

lemma waiting_fire:
  assumes "waiting s s'" "DEBOUNCE \<le> quiet"
  shows "history (elapse quiet s') = history (pushHistory (deepClone (structured s) (store s')) s)"
    and "currentIndex (elapse quiet s') = currentIndex (pushHistory (deepClone (structured s) (store s')) s)"
    and "store (elapse quiet s') = store s'"
    and "pending (elapse quiet s') = None"
  using assms
    pushHistory_fields[of "s'\<lparr>pending := None\<rparr>" s "deepClone (structured s) (store s')"]
  by (auto simp: waiting_def elapse_def)

text \<open>
  C2. A burst of \<open>N \<ge> 1\<close> accepted changes (the first one, then \<open>rest\<close>), each less than
  the debounce window of 200 after the one before it, followed by a silence longer than
  the window, appends exactly one entry to the history as it was before the burst (cut
  after the cursor, and without its oldest entry when the cap is reached); the entry is
  the snapshot of the value that is live when the timer fires, and the cursor is on it.
\<close>

theorem burst_one_entry:
  assumes "store_inv s"
    and "accepted s upd"
    and "burst_accepted (apply_event s (SetStore upd)) rest"
    and "DEBOUNCE < quiet"
  shows "let fired = elapse quiet (burst (apply_event s (SetStore upd)) rest);
             kept = take (nat \<lfloor>currentIndex s + 1\<rfloor>) (history s);
             snapshot = deepClone (structured s) (store fired)
         in history fired =
              (if int (length kept) = MAX_HISTORY then drop 1 kept @ [snapshot]
               else kept @ [snapshot]) \<and>
            history_at (history fired) (currentIndex fired) = snapshot \<and>
            store fired = store (burst (apply_event s (SetStore upd)) rest) \<and>
            pending fired = None"
proof -
  let ?s1 = "burst (apply_event s (SetStore upd)) rest"
  have w: "waiting s ?s1"
    using assms(2,3) by (intro waiting_burst accepted_setStore)
  have q: "DEBOUNCE \<le> quiet" using assms(4) by simp
  note f = waiting_fire[OF w q]
  show ?thesis
    using f pushHistory_history[OF assms(1)] pushHistory_cursor[OF assms(1)]
    by (simp add: Let_def)
qed

theorem burst_one_entry_witness:
  "history (elapse 201 (burst (apply_event (createDataStore True (VNum 0)) (SetStore (Plain (VNum 1))))
      [(50, Plain (VNum 2)), (199, Plain (VNum 3))])) = [VNum 0, VNum 3]"
proof -
  have a: "store_inv (createDataStore True (VNum 0))" by (rule inv_create)
  have b: "accepted (createDataStore True (VNum 0)) (Plain (VNum 1))" by code_simp
  have c: "burst_accepted (apply_event (createDataStore True (VNum 0)) (SetStore (Plain (VNum 1))))
      [(50, Plain (VNum 2)), (199, Plain (VNum 3))]" by code_simp
  have d: "DEBOUNCE < 201" by (simp add: DEBOUNCE_def)
  have e: "currentIndex (createDataStore True (VNum 0)) = 0"
    "history (createDataStore True (VNum 0)) = [VNum 0]" by code_simp+
  have f: "store (burst (apply_event (createDataStore True (VNum 0)) (SetStore (Plain (VNum 1))))
      [(50, Plain (VNum 2)), (199, Plain (VNum 3))]) = VNum 3" by code_simp
  have g: "structured (createDataStore True (VNum 0)) = True" by code_simp
  show ?thesis
    using burst_one_entry[OF a b c d]
    by (simp add: Let_def e f g MAX_HISTORY_def del: burst.simps apply_event.simps)
qed

section \<open>A change that changes nothing\<close>

text \<open>
  C5. When the update resolves to a candidate that \<open>deepEqual\<close> finds equal to the live
  value, \<open>set\<close> returns the state it was given, in both store variants: the same value,
  no timer started and no history push, no animation frame requested and no subscriber
  called, nothing written to the storage. Setting the current value itself is such an
  update (\<open>set_current_value_is_noop\<close> below).
\<close>

theorem set_noop_when_equal:
  assumes "nextState s upd = Inr next" and "deepEqual (store s) next"
    and "nextState_ctx opts c upd' = Inr next'" and "deepEqual (current c) next'"
  shows "setStore upd s = Inr s \<and> set_ctx opts upd' c = Inr c"
  using assms by (simp add: setStore_def set_ctx_def)

theorem set_noop_when_equal_witness:
  "setStore (Plain (VObj [(''count'', VNum 5)])) (createDataStore True (VObj [(''count'', VNum 5)]))
     = Inr (createDataStore True (VObj [(''count'', VNum 5)])) \<and>
   set_ctx plain_options (Mutator (\<lambda>draft. (draft, VUndef)))
     \<lparr> current = VObj [(''count'', VNum 5)], subscribers = [1, 2], called = [],
       storage = \<lparr> granted = True, items = [], writes = 0 \<rparr> \<rparr>
     = Inr \<lparr> current = VObj [(''count'', VNum 5)], subscribers = [1, 2], called = [],
         storage = \<lparr> granted = True, items = [], writes = 0 \<rparr> \<rparr>"
proof -
  have a: "nextState (createDataStore True (VObj [(''count'', VNum 5)]))
             (Plain (VObj [(''count'', VNum 5)])) = Inr (VObj [(''count'', VNum 5)])"
    by code_simp
  have b: "deepEqual (store (createDataStore True (VObj [(''count'', VNum 5)])))
             (VObj [(''count'', VNum 5)])"
    by code_simp
  have c: "nextState_ctx plain_options
             \<lparr> current = VObj [(''count'', VNum 5)], subscribers = [1, 2], called = [],
               storage = \<lparr> granted = True, items = [], writes = 0 \<rparr> \<rparr>
             (Mutator (\<lambda>draft. (draft, VUndef))) = Inr (VObj [(''count'', VNum 5)])"
    by code_simp
  have d: "deepEqual (current
             \<lparr> current = VObj [(''count'', VNum 5)], subscribers = [1, 2], called = [],
               storage = \<lparr> granted = True, items = [], writes = 0 \<rparr> \<rparr>)
             (VObj [(''count'', VNum 5)])"
    by code_simp
  show ?thesis
    using set_noop_when_equal[OF a b c d] by simp
qed

section \<open>Undo and redo\<close>

lemma pushHistory_shape:
  assumes "store_inv s"
  obtains h m where "history (pushHistory v s) = h" and "length h = Suc (Suc m)"
    and "currentIndex (pushHistory v s) = of_nat (Suc m)"
    and "h ! m = history_at (history s) (currentIndex s)"
    and "h ! Suc m = v"
proof -
  from assms obtain n where n: "currentIndex s = of_nat n" "n < length (history s)"
      "length (history s) \<le> 100"
    by (rule inv_cursor)
  let ?kept = "take (Suc n) (history s)"
  have k: "length ?kept = Suc n" "?kept ! n = history s ! n"
    using n by auto
  have at: "history_at (history s) (currentIndex s) = history s ! n"
    unfolding n(1) by (rule history_at_index[OF n(2)])
  show ?thesis
  proof (cases "Suc n = 100")
    case True
    note hc = pushHistory_cases(1)[OF assms n(1,2) True, of v]
    have n99: "n = 99" using True by simp
    have l: "length (tl (?kept @ [v])) = Suc (Suc 98)" using True k(1) by simp
    have a1: "tl (?kept @ [v]) ! 98 = history_at (history s) (currentIndex s)"
      unfolding at using k n99 by (simp add: nth_append nth_tl)
    have a2: "tl (?kept @ [v]) ! Suc 98 = v"
      using True k(1) by (simp add: nth_append nth_tl)
    have c: "currentIndex (pushHistory v s) = of_nat (Suc 98)"
      using conjunct2[OF hc] by simp
    show ?thesis by (rule that[OF conjunct1[OF hc] l c a1 a2])
  next
    case False
    note hc = pushHistory_cases(2)[OF assms n(1,2) False n(3), of v]
    have l: "length (?kept @ [v]) = Suc (Suc n)" using k(1) by simp
    have a1: "(?kept @ [v]) ! n = history_at (history s) (currentIndex s)"
      unfolding at using k by (simp add: nth_append)
    have a2: "(?kept @ [v]) ! Suc n = v"
      using k(1) by (simp add: nth_append)
    show ?thesis by (rule that[OF conjunct1[OF hc] l conjunct2[OF hc] a1 a2])
  qed
qed







section \<open>Reset and the waiting timer\<close>

text \<open>\<open>resetStore\<close> assigns the value, the history and the cursor, and leaves the timer as
  it is: the source has no \<open>clearTimeout\<close> there.\<close>

lemma resetStore_fields:
  "store (resetStore s) = deepClone (structured s) (initialState s) \<and>
   history (resetStore s) = [deepClone (structured s) (initialState s)] \<and>
   currentIndex (resetStore s) = 0 \<and> pending (resetStore s) = pending s"
  by (simp add: resetStore_def notifySubscribers_def)

text \<open>
  C6. The store over \<open>{a: 0}\<close> accepts \<open>setStore({a: 1})\<close>, is reset 100 time units later,
  and 100 time units after the reset the timer of the change fires. Right after the reset
  the value is the initial one, the history is that single entry and the cursor is 0, but
  the timer still waits with the snapshot \<open>{a: 1}\<close>; when it fires, the snapshot of the
  change from before the reset is pushed: the history is \<open>[{a: 0}, {a: 1}]\<close> and the cursor
  1, while the live value is \<open>{a: 0}\<close>.
\<close>

theorem reset_leaves_timer_waiting:
  "(let s0 = createDataStore True (VObj [(''a'', VNum 0)]);
        s1 = apply_event s0 (SetStore (Plain (VObj [(''a'', VNum 1)])));
        s2 = apply_event s1 (Elapse 100);
        s3 = apply_event s2 ResetStore;
        s4 = apply_event s3 (Elapse 100)
    in (store s3, history s3, currentIndex s3, pending s3, store s4, history s4, currentIndex s4))
   = (VObj [(''a'', VNum 0)], [VObj [(''a'', VNum 0)]], 0, Some (100, VObj [(''a'', VNum 1)]),
      VObj [(''a'', VNum 0)], [VObj [(''a'', VNum 0)], VObj [(''a'', VNum 1)]], 1)"
  by code_simp

theorem reset_leaves_timer_waiting_witness:
  "history (run (createDataStore True (VObj [(''a'', VNum 0)]))
      [SetStore (Plain (VObj [(''a'', VNum 1)])), Elapse 100, ResetStore, Elapse 100])
   = [VObj [(''a'', VNum 0)], VObj [(''a'', VNum 1)]]"
  using reset_leaves_timer_waiting by (simp add: run_def Let_def)

section \<open>Mutator updates\<close>

text \<open>The singleton store takes what the mutator returns, when it returns something,
  and else the draft as the mutator left it.\<close>

lemma setStore_mutator:
  assumes "typeof (store s) = TObject"
  shows "nextState s (Mutator f) =
           (let draft = deepClone (structured s) (store s) in
            if snd (f draft) \<noteq> VUndef then Inr (snd (f draft)) else Inr (fst (f draft)))"
proof -
  have "strict_equal r VUndef = (r = VUndef)" for r by (cases r) simp_all
  then show ?thesis using assms by (simp add: nextState_def Let_def)
qed

text \<open>The context store calls the mutator on the draft and drops what it returns.\<close>

lemma set_ctx_mutator:
  assumes "typeof (current c) = TObject" "current c \<noteq> VNull"
  shows "nextState_ctx opts c (Mutator f) = Inr (fst (f (deepClone (cloneable opts) (current c))))"
  using assms by (simp add: nextState_ctx_def)

text \<open>
  On the value \<open>{count: 5}\<close>, the mutator \<open>draft => ({count: 6})\<close> returns a replacement and
  leaves its draft alone. The singleton store makes \<open>{count: 6}\<close> the next value. The
  context store ignores the returned value: the candidate is the untouched draft, equal
  to the live value, and \<open>set\<close> changes nothing. A mutator that writes into its draft
  (\<open>draft => { draft.count = 6 }\<close>) gives \<open>{count: 6}\<close> in both.
\<close>

theorem context_set_drops_returned_value:
  "(let returning = Mutator (\<lambda>draft. (draft, VObj [(''count'', VNum 6)]));
        mutating = Mutator (\<lambda>draft. (VObj [(''count'', VNum 6)], VUndef));
        s = createDataStore True (VObj [(''count'', VNum 5)]);
        c = \<lparr> current = VObj [(''count'', VNum 5)], subscribers = [], called = [],
              storage = \<lparr> granted = True, items = [], writes = 0 \<rparr> \<rparr>
    in (nextState s returning, nextState s mutating,
        nextState_ctx plain_options c returning, nextState_ctx plain_options c mutating,
        set_ctx plain_options returning c = Inr c))
   = (Inr (VObj [(''count'', VNum 6)]), Inr (VObj [(''count'', VNum 6)]),
      Inr (VObj [(''count'', VNum 5)]), Inr (VObj [(''count'', VNum 6)]), True)"
  by code_simp

text \<open>
  C1. On a store whose value is a record or a sequence, a \<open>set\<close> with a mutator clones the
  value into a draft and calls the mutator on the draft. The singleton store takes what
  the mutator returned for the next value when that is not \<open>undefined\<close>, and the mutated
  draft otherwise. The context store takes the mutated draft always, whatever the mutator
  returned. Neither raises, and the value of the store after the call is that candidate,
  unless \<open>deepEqual\<close> finds it equal to the value before, which then stays.
\<close>

theorem mutator_update_next_value:
  assumes "container (store s)" and "container (current c)"
  shows "let draft = deepClone (structured s) (store s);
             mutated = fst (f draft);
             returned = snd (f draft);
             next = (if returned \<noteq> VUndef then returned else mutated);
             next_c = fst (f (deepClone (cloneable opts) (current c)))
         in nextState s (Mutator f) = Inr next \<and>
            nextState_ctx opts c (Mutator f) = Inr next_c \<and>
            (case setStore (Mutator f) s of
               Inl e \<Rightarrow> False
             | Inr s' \<Rightarrow> store s' = (if deepEqual (store s) next then store s else next)) \<and>
            (case set_ctx opts (Mutator f) c of
               Inl e \<Rightarrow> False
             | Inr c' \<Rightarrow> current c' = (if deepEqual (current c) next_c then current c else next_c))"
proof -
  have a: "typeof (store s) = TObject" using assms(1) by (simp add: container_def)
  have b: "typeof (current c) = TObject" "current c \<noteq> VNull"
    using assms(2) by (simp_all add: container_def)
  show ?thesis
    unfolding Let_def setStore_def set_ctx_def setStore_mutator[OF a] set_ctx_mutator[OF b]
    by (simp add: notifySubscribers_def)
qed

theorem mutator_update_next_value_witness:
  "nextState (createDataStore True (VObj [(''count'', VNum 5)]))
     (Mutator (\<lambda>draft. (draft, VObj [(''count'', VNum 6)]))) = Inr (VObj [(''count'', VNum 6)]) \<and>
   nextState_ctx plain_options
     \<lparr> current = VObj [(''count'', VNum 5)], subscribers = [], called = [],
       storage = \<lparr> granted = True, items = [], writes = 0 \<rparr> \<rparr>
     (Mutator (\<lambda>draft. (draft, VObj [(''count'', VNum 6)]))) = Inr (VObj [(''count'', VNum 5)])"
proof -
  let ?s = "createDataStore True (VObj [(''count'', VNum 5)])"
  let ?c = "\<lparr> current = VObj [(''count'', VNum 5)], subscribers = [], called = [],
       storage = \<lparr> granted = True, items = [], writes = 0 \<rparr> \<rparr>"
  have a: "container (store ?s)" by code_simp
  have b: "container (current ?c)" by code_simp
  have d: "deepClone (structured ?s) (store ?s) = VObj [(''count'', VNum 5)]" by code_simp
  have e: "deepClone (cloneable plain_options) (current ?c) = VObj [(''count'', VNum 5)]"
    by code_simp
  from mutator_update_next_value[OF a b, of "\<lambda>draft. (draft, VObj [(''count'', VNum 6)])"
      plain_options]
  have "nextState ?s (Mutator (\<lambda>draft. (draft, VObj [(''count'', VNum 6)]))) =
          Inr (VObj [(''count'', VNum 6)]) \<and>
        nextState_ctx plain_options ?c (Mutator (\<lambda>draft. (draft, VObj [(''count'', VNum 6)]))) =
          Inr (fst (VObj [(''count'', VNum 5)], VObj [(''count'', VNum 6)]))"
    unfolding Let_def d e by simp
  then show ?thesis by simp
qed

section \<open>Hydration\<close>

lemma loadState_returns: "\<exists>v. loadState opts ls init = Inr v"
  by (auto simp: loadState_def split: option.splits sum.splits)

lemma loadState_try_failure:
  assumes "persistKey opts = Some key" "key \<noteq> []"
    and "\<not> granted ls \<or> (case map_of (items ls) key of None \<Rightarrow> True
                               | Some stored \<Rightarrow> json_parse opts stored = None)"
  shows "loadState_try opts key ls init = Inr init \<or> (\<exists>e. loadState_try opts key ls init = Inl e)"
  using assms
  by (auto simp: loadState_try_def getItem_def split: option.splits sum.splits)

lemma loadState_failure:
  assumes "hydration_failure opts ls"
  shows "loadState opts ls init = Inr init"
proof -
  from assms obtain key where k: "persistKey opts = Some key" "key \<noteq> []"
    and f: "\<not> granted ls \<or> (case map_of (items ls) key of None \<Rightarrow> True
                               | Some stored \<Rightarrow> json_parse opts stored = None)"
    by (auto simp: hydration_failure_def split: option.splits)
  from loadState_try_failure[OF k f, of init] show ?thesis
    using k by (auto simp: loadState_def)
qed

lemma pick_fields_primitive:
  "typeof parsed \<noteq> TObject \<Longrightarrow> typeof parsed \<noteq> TFunction \<Longrightarrow> names \<noteq> [] \<Longrightarrow>
   pick_fields opts parsed acc names = Inl TypeError"
  by (cases names) (auto simp: in_op_def)

text \<open>
  C8. For every configuration, storage and initial value, the construction of the store
  returns a store and raises nothing. When hydration fails (access to the storage is
  denied, the slot is absent, or its content is corrupted, that is \<open>JSON.parse\<close> rejects
  it), the store starts with exactly the initial value. A content that parses is not a
  failure, whatever its shape: it is overlaid on the initial value, except that with
  persisted fields configured a parsed primitive makes \<open>key in parsed\<close> throw, which
  also gives the initial value (\<open>pick_fields_primitive\<close>).
\<close>

theorem hydration_never_raises:
  "(\<exists>c. useContextStoreData opts ls init = Inr c) \<and>
   (hydration_failure opts ls \<longrightarrow>
      useContextStoreData opts ls init =
        Inr \<lparr> current = init, subscribers = [], called = [], storage = ls \<rparr>)"
  using loadState_returns[of opts ls init] loadState_failure[of opts ls init]
  by (auto simp: useContextStoreData_def)

theorem hydration_never_raises_witness:
  "useContextStoreData global_options
      \<lparr> granted = True, items = [(''VDwqVtPbjI8v/jWe+XIbWA=='', ''{columnVisib'')], writes = 0 \<rparr>
      (VObj [(''columnVisibility'', VObj [])])
   = Inr \<lparr> current = VObj [(''columnVisibility'', VObj [])], subscribers = [], called = [],
          storage = \<lparr> granted = True, items = [(''VDwqVtPbjI8v/jWe+XIbWA=='', ''{columnVisib'')],
                      writes = 0 \<rparr> \<rparr>"
proof -
  have f: "hydration_failure global_options
      \<lparr> granted = True, items = [(''VDwqVtPbjI8v/jWe+XIbWA=='', ''{columnVisib'')], writes = 0 \<rparr>"
    by (simp add: hydration_failure_def global_options_def)
  show ?thesis
    using hydration_never_raises[of global_options
      "\<lparr> granted = True, items = [(''VDwqVtPbjI8v/jWe+XIbWA=='', ''{columnVisib'')], writes = 0 \<rparr>"
      "VObj [(''columnVisibility'', VObj [])]"] f
    by simp
qed

section \<open>Merging records\<close>

lemma isPlainObject_iff: "isPlainObject v \<longleftrightarrow> (\<exists>kvs. v = VObj kvs)"
  by (cases v) (simp_all add: isPlainObject_def)

lemma strict_equal_VUndef [simp]: "strict_equal v VUndef = (v = VUndef)"
  by (cases v) simp_all

lemma strict_equal_VNull [simp]: "strict_equal v VNull = (v = VNull)"
  by (cases v) simp_all

lemma deepClone_record: "\<exists>fs. deepClone sc (VObj kvs) = VObj fs"
  by (simp add: deepClone_def structuredClone_def deepClonePolyfill.simps[of "VObj kvs"])

lemma merge_keys_record:
  assumes "\<And>key tv. key \<in> set keys \<Longrightarrow> isPlainObject tv \<Longrightarrow> isPlainObject (get_prop src key)
             \<Longrightarrow> \<exists>m. deepMerge sc tv (get_prop src key) = Inr m"
  shows "\<exists>r'. merge_keys sc src (VObj r) keys = Inr (VObj r')"
  using assms
proof (induction keys arbitrary: r)
  case Nil
  then show ?case by simp
next
  case (Cons key keys)
  have rest: "\<exists>r'. merge_keys sc src (VObj q) keys = Inr (VObj r')" for q
    using Cons.IH[of q] Cons.prems by auto
  show ?case
  proof (cases "isPlainObject (get_prop (VObj r) key) \<and> isPlainObject (get_prop src key)")
    case True
    then obtain m where "deepMerge sc (get_prop (VObj r) key) (get_prop src key) = Inr m"
      using Cons.prems[of key "get_prop (VObj r) key"] by auto
    then show ?thesis
      using True rest by (auto simp: read_prop_def Let_def isPlainObject_iff)
  next
    case False
    then show ?thesis
      using rest by (auto simp: read_prop_def Let_def)
  qed
qed

lemma deepMerge_records:
  "isPlainObject t \<Longrightarrow> isPlainObject s \<Longrightarrow> \<exists>r. deepMerge sc t s = Inr (VObj r)"
proof (induction s arbitrary: t rule: measure_induct_rule[of size])
  case (less s)
  obtain tf where t: "t = VObj tf" using less.prems(1) by (auto simp: isPlainObject_iff)
  obtain sf where s: "s = VObj sf" using less.prems(2) by (auto simp: isPlainObject_iff)
  obtain cf where c: "deepClone sc t = VObj cf" using deepClone_record t by blast
  have "\<exists>m. deepMerge sc tv (get_prop s key) = Inr m"
    if "key \<in> set (own_keys s)" "isPlainObject tv" "isPlainObject (get_prop s key)" for key tv
    using less.IH[of "get_prop s key" tv] that size_get_prop_plain[of s key] by blast
  then have "\<exists>r'. merge_keys sc s (VObj cf) (own_keys s) = Inr (VObj r')"
    by (rule merge_keys_record)
  then show ?case
    using s c by (subst deepMerge.simps) simp
qed

lemma merge_keys_lookup:
  assumes "distinct keys"
    and "merge_keys sc src (VObj r) keys = Inr (VObj r')"
  shows "map_of r' k =
           (if k \<in> set keys \<and> get_prop src k \<noteq> VUndef
            then Some (merged_at sc (get_prop (VObj r) k) (get_prop src k))
            else map_of r k)"
  using assms
proof (induction keys arbitrary: r)
  case Nil
  then show ?case by simp
next
  case (Cons key keys)
  have d: "distinct keys" "key \<notin> set keys" using Cons.prems(1) by auto
  show ?case
  proof (cases "get_prop src key = VUndef")
    case True
    then have "merge_keys sc src (VObj r) keys = Inr (VObj r')"
      using Cons.prems(2) by (simp add: read_prop_def Let_def)
    from Cons.IH[OF d(1) this] show ?thesis using True d(2) by auto
  next
    case False
    let ?x = "merged_at sc (get_prop (VObj r) key) (get_prop src key)"
    have step: "merge_keys sc src (VObj (AList.update key ?x r)) keys = Inr (VObj r')"
      using Cons.prems(2) False deepMerge_records[of "get_prop (VObj r) key" "get_prop src key" sc]
      by (auto simp: read_prop_def Let_def merged_at_def split: sum.splits if_splits)
    have same: "get_prop (VObj (AList.update key ?x r)) k = get_prop (VObj r) k" if "k \<noteq> key"
      using that by (simp add: update_conv')
    from Cons.IH[OF d(1) step] show ?thesis
      using False d(2) same by (auto simp: update_conv')
  qed
qed

lemma merge_keys_keeps_keys:
  assumes "merge_keys sc src (VObj r) keys = Inr (VObj r')"
  shows "fst ` set r \<subseteq> fst ` set r'"
  using assms
proof (induction keys arbitrary: r)
  case Nil
  then show ?case by simp
next
  case (Cons key keys)
  show ?case
  proof (cases "get_prop src key = VUndef")
    case True
    then have "merge_keys sc src (VObj r) keys = Inr (VObj r')"
      using Cons.prems by (simp add: read_prop_def Let_def)
    from Cons.IH[OF this] show ?thesis .
  next
    case False
    then obtain x where "merge_keys sc src (VObj (AList.update key x r)) keys = Inr (VObj r')"
      using Cons.prems
      by (auto simp: read_prop_def Let_def split: sum.splits if_splits)
    from Cons.IH[OF this] show ?thesis by (auto simp: dom_update)
  qed
qed

text \<open>
  C9. For records \<open>a\<close> and \<open>b\<close>, \<open>deepMerge(a, b)\<close> returns a record \<open>r\<close> such that: every
  key of \<open>a\<close> is a key of \<open>r\<close>; a key of \<open>a\<close> that \<open>b\<close> does not have keeps the value it
  has in \<open>a\<close>; a key of both whose value in \<open>b\<close> is not \<open>undefined\<close>, and whose two values
  are not both records, has the value of \<open>b\<close>; a key of both whose two values are records
  has their merge; and a key whose value in \<open>b\<close> is \<open>undefined\<close> is skipped, so it has
  in \<open>r\<close> what it has in \<open>a\<close>. The second clause of the claim is read with the third as
  its exception, as the specification words it.
\<close>

theorem deepMerge_keeps_and_overrides:
  assumes "well_formed (VObj a)" and "well_formed (VObj b)"
  shows "\<exists>r. deepMerge sc (VObj a) (VObj b) = Inr (VObj r) \<and>
           fst ` set a \<subseteq> fst ` set r \<and>
           (\<forall>k. k \<in> fst ` set a \<and> k \<notin> fst ` set b \<longrightarrow> map_of r k = map_of a k) \<and>
           (\<forall>k va vb. map_of a k = Some va \<and> map_of b k = Some vb \<and> vb \<noteq> VUndef \<and>
                      \<not> (isPlainObject va \<and> isPlainObject vb) \<longrightarrow> map_of r k = Some vb) \<and>
           (\<forall>k va vb. map_of a k = Some va \<and> map_of b k = Some vb \<and>
                      isPlainObject va \<and> isPlainObject vb \<longrightarrow>
                      Inr (get_prop (VObj r) k) = deepMerge sc va vb) \<and>
           (\<forall>k. map_of b k = Some VUndef \<longrightarrow> map_of r k = map_of a k)"
proof -
  obtain r where r: "deepMerge sc (VObj a) (VObj b) = Inr (VObj r)"
    using deepMerge_records[of "VObj a" "VObj b" sc] by (auto simp: isPlainObject_iff)
  have m: "merge_keys sc (VObj b) (VObj a) (map fst b) = Inr (VObj r)"
    using r assms(1) by (subst (asm) deepMerge.simps) simp
  have d: "distinct (map fst b)" using assms(2) by simp
  note look = merge_keys_lookup[OF d m]
  have keys: "fst ` set a \<subseteq> fst ` set r"
    using m by (rule merge_keys_keeps_keys)
  have p1: "map_of r k = map_of a k" if "k \<in> fst ` set a \<and> k \<notin> fst ` set b" for k
    using that look[of k] by auto
  have p2: "map_of r k = Some vb"
    if "map_of a k = Some va \<and> map_of b k = Some vb \<and> vb \<noteq> VUndef \<and>
        \<not> (isPlainObject va \<and> isPlainObject vb)" for k va vb
  proof -
    have "k \<in> set (map fst b)" using that by (auto dest: map_of_SomeD intro: rev_image_eqI)
    then show ?thesis using that look[of k] by (auto simp: merged_at_def)
  qed
  have p3: "Inr (get_prop (VObj r) k) = deepMerge sc va vb"
    if h: "map_of a k = Some va \<and> map_of b k = Some vb \<and> isPlainObject va \<and> isPlainObject vb"
    for k va vb
  proof -
    have kb: "k \<in> set (map fst b)"
      using h by (auto dest: map_of_SomeD intro: rev_image_eqI)
    have nu: "vb \<noteq> VUndef" using h by (auto simp: isPlainObject_def)
    obtain x where x: "deepMerge sc va vb = Inr (VObj x)"
      using h deepMerge_records[of va vb sc] by auto
    show ?thesis using h look[of k] kb nu x by (auto simp: merged_at_def)
  qed
  have p4: "map_of r k = map_of a k" if "map_of b k = Some VUndef" for k
    using that look[of k] by auto
  show ?thesis
    using r keys p1 p2 p3 p4 by blast
qed

theorem deepMerge_keeps_and_overrides_witness:
  "\<exists>r. deepMerge True
          (VObj [(''a'', VNum 1), (''b'', VObj [(''c'', VNum 2)]), (''u'', VNum 3), (''w'', VNull)])
          (VObj [(''b'', VObj [(''d'', VNum 3)]), (''a'', VUndef), (''z'', VNull), (''u'', VStr ''x'')])
        = Inr (VObj r) \<and>
        map_of r ''w'' = Some VNull \<and> map_of r ''u'' = Some (VStr ''x'') \<and>
        map_of r ''a'' = Some (VNum 1)"
proof -
  let ?a = "[(''a'', VNum 1), (''b'', VObj [(''c'', VNum 2)]), (''u'', VNum 3), (''w'', VNull)]"
  let ?b = "[(''b'', VObj [(''d'', VNum 3)]), (''a'', VUndef), (''z'', VNull), (''u'', VStr ''x'')]"
  have a: "well_formed (VObj ?a)" by simp
  have b: "well_formed (VObj ?b)" by simp
  from deepMerge_keeps_and_overrides[OF a b, of True]
  obtain r where r: "deepMerge True (VObj ?a) (VObj ?b) = Inr (VObj r)"
    and p1: "\<forall>k. k \<in> fst ` set ?a \<and> k \<notin> fst ` set ?b \<longrightarrow> map_of r k = map_of ?a k"
    and p2: "\<forall>k va vb. map_of ?a k = Some va \<and> map_of ?b k = Some vb \<and> vb \<noteq> VUndef \<and>
                      \<not> (isPlainObject va \<and> isPlainObject vb) \<longrightarrow> map_of r k = Some vb"
    and p4: "\<forall>k. map_of ?b k = Some VUndef \<longrightarrow> map_of r k = map_of ?a k"
    by blast
  have "map_of r ''w'' = Some VNull"
    using p1[rule_format, of "''w''"] by simp
  moreover have "map_of r ''u'' = Some (VStr ''x'')"
    using p2[rule_format, of "''u''" "VNum 3" "VStr ''x''"] by (simp add: isPlainObject_def)
  moreover have "map_of r ''a'' = Some (VNum 1)"
    using p4[rule_format, of "''a''"] by simp
  ultimately show ?thesis using r by blast
qed

section \<open>\<open>deepEqual\<close> and structural identity\<close>

lemma deepEqual_arrays:
  "deepEqual (VArr xs) (VArr ys) =
     (length xs = length ys \<and> (\<forall>i<length xs. deepEqual (xs ! i) (ys ! i)))"
proof -
  have "list_all (\<lambda>(item, index). deepEqual item (nth_js ys index)) (zip xs [0..<length xs])
        = (\<forall>i<length xs. deepEqual (xs ! i) (ys ! i))" if "length xs = length ys"
  proof
    assume l: "list_all (\<lambda>(item, index). deepEqual item (nth_js ys index)) (zip xs [0..<length xs])"
    show "\<forall>i<length xs. deepEqual (xs ! i) (ys ! i)"
    proof (intro allI impI)
      fix i assume i: "i < length xs"
      then have "(xs ! i, i) \<in> set (zip xs [0..<length xs])"
        by (auto simp: set_zip intro!: exI[of _ i])
      then have "deepEqual (xs ! i) (nth_js ys i)"
        using l by (auto simp: list_all_iff)
      then show "deepEqual (xs ! i) (ys ! i)" using i that by (simp add: nth_js_def)
    qed
  next
    assume "\<forall>i<length xs. deepEqual (xs ! i) (ys ! i)"
    then show "list_all (\<lambda>(item, index). deepEqual item (nth_js ys index)) (zip xs [0..<length xs])"
      using that by (auto simp: list_all_iff set_zip nth_js_def)
  qed
  then show ?thesis by (subst deepEqual.simps) auto
qed

lemma deepEqual_records:
  "deepEqual (VObj a) (VObj b) =
     (length a = length b \<and>
      (\<forall>k \<in> fst ` set a. k \<in> fst ` set b \<and> deepEqual (get_prop (VObj a) k) (get_prop (VObj b) k)))"
  by (subst deepEqual.simps) (auto simp: list_all_iff Let_def)

lemma deepEqual_scalar_left:
  "typeof a \<noteq> TObject \<or> a = VNull \<Longrightarrow> deepEqual a b = (a = b)"
  by (subst deepEqual.simps, cases a; cases b) auto

lemma deepEqual_scalar_right:
  "typeof b \<noteq> TObject \<or> b = VNull \<Longrightarrow> deepEqual a b = (a = b)"
  by (subst deepEqual.simps, cases a; cases b) auto

lemma same_keys_same_length:
  assumes "distinct (map fst a)" "distinct (map fst b)" "fst ` set a = fst ` set b"
  shows "length a = length b"
proof -
  have "length (map fst a) = card (set (map fst a))"
    using assms(1) by (rule distinct_card[symmetric])
  also have "\<dots> = card (set (map fst b))" using assms(3) by simp
  also have "\<dots> = length (map fst b)" using assms(2) by (rule distinct_card)
  finally show ?thesis by simp
qed

lemma subset_keys_same_length:
  assumes "distinct (map fst a)" "distinct (map fst b)" "fst ` set a \<subseteq> fst ` set b"
    "length a = length b"
  shows "fst ` set a = fst ` set b"
proof -
  have "card (set (map fst a)) = card (set (map fst b))"
    using distinct_card[OF assms(1)] distinct_card[OF assms(2)] assms(4) by simp
  then show ?thesis
    using assms(3) card_subset_eq[of "set (map fst b)" "set (map fst a)"] by simp
qed

lemma well_formed_get_prop:
  "well_formed (VObj kvs) \<Longrightarrow> k \<in> fst ` set kvs \<Longrightarrow> well_formed (get_prop (VObj kvs) k)"
proof -
  assume w: "well_formed (VObj kvs)" and k: "k \<in> fst ` set kvs"
  then obtain v where v: "map_of kvs k = Some v"
    by (cases "map_of kvs k") (auto simp: map_of_eq_None_iff)
  then have "(k, v) \<in> set kvs" by (rule map_of_SomeD)
  then show ?thesis using w v by (auto simp: list_all_iff)
qed

lemma identical_deepEqual:
  "well_formed a \<Longrightarrow> well_formed b \<Longrightarrow> structurally_identical a b \<Longrightarrow> deepEqual a b"
proof (induction a b rule: structurally_identical.induct)
  case (1 xs ys)
  then show ?case
    by (auto simp: deepEqual_arrays list_all_iff)
next
  case (2 kas kbs)
  have l: "length kas = length kbs"
    using 2 by (intro same_keys_same_length) auto
  have keys: "fst ` set kas = fst ` set kbs"
    using 2(4) by simp
  have "list_all (\<lambda>key. structurally_identical (get_prop (VObj kas) key) (get_prop (VObj kbs) key))
          (map fst kas)"
    using 2(4) by (simp del: get_prop.simps)
  then have vals: "\<forall>key \<in> set (map fst kas).
                 structurally_identical (get_prop (VObj kas) key) (get_prop (VObj kbs) key)"
    unfolding list_all_iff .
  have "deepEqual (get_prop (VObj kas) k) (get_prop (VObj kbs) k)" if k: "k \<in> fst ` set kas" for k
  proof -
    have kb: "k \<in> fst ` set kbs" using k keys by auto
    have "k \<in> set (map fst kas)" using k by simp
    moreover have "well_formed (get_prop (VObj kas) k)"
      using 2(2) k by (rule well_formed_get_prop)
    moreover have "well_formed (get_prop (VObj kbs) k)"
      using 2(3) kb by (rule well_formed_get_prop)
    moreover have "structurally_identical (get_prop (VObj kas) k) (get_prop (VObj kbs) k)"
      using vals k by (auto simp del: get_prop.simps)
    ultimately show ?thesis by (rule 2(1))
  qed
  then show ?case using l keys by (auto simp: deepEqual_records)
qed (simp_all add: deepEqual_scalar_left deepEqual_scalar_right)

text \<open>
  C4. \<open>deepEqual\<close> does not tell an array from the record of its indices: it answers
  \<open>true\<close> for \<open>[]\<close> and \<open>{}\<close>, and for \<open>[1, 2]\<close> and \<open>{"0": 1, "1": 2}\<close> in both orders,
  which are not structurally identical. Only the pair of two arrays is handled on its own
  (line 49); an array against a record falls through to the comparison of
  \<open>Object.keys\<close>. In the store, \<open>setStore([])\<close> on the value \<open>{}\<close> is therefore dropped as
  a change that changes nothing. Structurally identical values are always \<open>deepEqual\<close>
  (\<open>identical_deepEqual\<close>), and reading arrays as records is the only way in which
  \<open>deepEqual\<close> goes beyond structural identity (\<open>deepEqual_is_identity_of_records\<close>
  below).
\<close>

theorem deepEqual_array_record:
  "(deepEqual (VArr []) (VObj []),
    deepEqual (VArr [VNum 1, VNum 2]) (VObj [(''0'', VNum 1), (''1'', VNum 2)]),
    deepEqual (VObj [(''0'', VNum 1), (''1'', VNum 2)]) (VArr [VNum 1, VNum 2]),
    structurally_identical (VArr []) (VObj []),
    structurally_identical (VArr [VNum 1, VNum 2]) (VObj [(''0'', VNum 1), (''1'', VNum 2)]),
    structurally_identical (VObj [(''0'', VNum 1), (''1'', VNum 2)]) (VArr [VNum 1, VNum 2]),
    setStore (Plain (VArr [])) (createDataStore True (VObj [])))
   = (True, True, True, False, False, False, Inr (createDataStore True (VObj [])))"
  by code_simp

theorem deepEqual_array_record_witness:
  "deepEqual (VArr []) (VObj []) \<and> \<not> structurally_identical (VArr []) (VObj [])"
  using deepEqual_array_record by simp

section \<open>What \<open>getHistory\<close> hands out\<close>

lemma mutate_absent: "a \<notin> objects v \<Longrightarrow> mutate a c v = v"
  by (induction v) (auto intro!: map_idI simp: rev_image_eqI)

lemma update_objects:
  "(\<Union>kv \<in> set (AList.update key c acc). objects (snd kv)) \<subseteq>
     (\<Union>kv \<in> set acc. objects (snd kv)) \<union> objects c"
  by (induction acc) auto

lemma deepClonePolyfill_t_fresh:
  "deepClonePolyfill_t n v = (c, m) \<Longrightarrow> n \<le> m \<and> objects c \<subseteq> {n..<m}"
  "deepClonePolyfill_ts n xs = (ys, m) \<Longrightarrow> n \<le> m \<and> (\<Union>y \<in> set ys. objects y) \<subseteq> {n..<m}"
  "deepClonePolyfill_keys n kvs acc keys = (fs, m) \<Longrightarrow>
     n \<le> m \<and> (\<Union>kv \<in> set fs. objects (snd kv)) \<subseteq> (\<Union>kv \<in> set acc. objects (snd kv)) \<union> {n..<m}"
proof (induction n v and n xs and n kvs acc keys arbitrary: c m and ys m and fs m
       rule: deepClonePolyfill_t_deepClonePolyfill_ts_deepClonePolyfill_keys.induct)
  case (1 n a xs)
  obtain zs k where z: "deepClonePolyfill_ts (Suc n) xs = (zs, k)" by (cases "deepClonePolyfill_ts (Suc n) xs")
  have c: "c = TArr n zs" "m = k" using 1(2) z by auto
  from 1(1)[OF z] have "Suc n \<le> k" "(\<Union>y \<in> set zs. objects y) \<subseteq> {Suc n..<k}" by auto
  then have "n \<le> k" "insert n (\<Union>y \<in> set zs. objects y) \<subseteq> {n..<k}" by auto
  then show ?case unfolding c by simp
next
  case (2 n a kvs)
  obtain zs k where z: "deepClonePolyfill_keys (Suc n) kvs [] (map fst kvs) = (zs, k)"
    by (cases "deepClonePolyfill_keys (Suc n) kvs [] (map fst kvs)")
  have c: "c = TObj n zs" "m = k" using 2(2) z by auto
  from 2(1)[OF z] have "Suc n \<le> k" "(\<Union>kv \<in> set zs. objects (snd kv)) \<subseteq> {Suc n..<k}" by auto
  then have "n \<le> k" "insert n (\<Union>kv \<in> set zs. objects (snd kv)) \<subseteq> {n..<k}" by auto
  then show ?case unfolding c by simp
next
  case (10 n x xs)
  obtain y k where y: "deepClonePolyfill_t n x = (y, k)" by (cases "deepClonePolyfill_t n x")
  obtain zs j where z: "deepClonePolyfill_ts k xs = (zs, j)" by (cases "deepClonePolyfill_ts k xs")
  have e: "ys = y # zs" "m = j" using 10(3) y z by auto
  from 10(1)[OF y] have a: "n \<le> k" "objects y \<subseteq> {n..<k}" by auto
  from 10(2)[OF y[symmetric] z] have b: "k \<le> j" "(\<Union>y \<in> set zs. objects y) \<subseteq> {k..<j}" by auto
  have "objects y \<subseteq> {n..<j}" using a b(1) by auto
  moreover have "(\<Union>y \<in> set zs. objects y) \<subseteq> {n..<j}" using a(1) b by auto
  ultimately show ?case unfolding e using a(1) b(1) by simp
next
  case (12 n kvs clonedObject key keys)
  obtain y k where y: "deepClonePolyfill_t n (field_of kvs key) = (y, k)"
    by (cases "deepClonePolyfill_t n (field_of kvs key)")
  have r: "deepClonePolyfill_keys k kvs (AList.update key y clonedObject) keys = (fs, m)"
    using 12(3) y by simp
  from 12(1)[OF y] have a: "n \<le> k" "objects y \<subseteq> {n..<k}" by auto
  from 12(2)[OF y[symmetric] r] have b: "k \<le> m"
    "(\<Union>kv \<in> set fs. objects (snd kv)) \<subseteq>
       (\<Union>kv \<in> set (AList.update key y clonedObject). objects (snd kv)) \<union> {k..<m}" by auto
  have u: "(\<Union>kv \<in> set (AList.update key y clonedObject). objects (snd kv)) \<subseteq>
       (\<Union>kv \<in> set clonedObject. objects (snd kv)) \<union> objects y"
    by (rule update_objects)
  have s1: "objects y \<subseteq> {n..<m}" using a(2) b(1) by auto
  have s2: "{k..<m} \<subseteq> {n..<m}" using a(1) by auto
  have "(\<Union>kv \<in> set fs. objects (snd kv)) \<subseteq> (\<Union>kv \<in> set clonedObject. objects (snd kv)) \<union> {n..<m}"
    using b(2) u s1 s2 by blast
  then show ?case using a(1) b(1) by simp
qed auto

lemma fresh_copy_fresh:
  "fresh_copy n v = (c, m) \<Longrightarrow> n \<le> m \<and> objects c \<subseteq> {n..<m}"
  "fresh_copies n xs = (ys, m) \<Longrightarrow> n \<le> m \<and> (\<Union>y \<in> set ys. objects y) \<subseteq> {n..<m}"
  "fresh_fields n kvs = (fs, m) \<Longrightarrow> n \<le> m \<and> (\<Union>kv \<in> set fs. objects (snd kv)) \<subseteq> {n..<m}"
proof (induction n v and n xs and n kvs arbitrary: c m and ys m and fs m
       rule: fresh_copy_fresh_copies_fresh_fields.induct)
  case (1 n a xs)
  obtain zs k where z: "fresh_copies (Suc n) xs = (zs, k)" by (cases "fresh_copies (Suc n) xs")
  have c: "c = TArr n zs" "m = k" using 1(2) z by auto
  from 1(1)[OF z] have "Suc n \<le> k" "(\<Union>y \<in> set zs. objects y) \<subseteq> {Suc n..<k}" by auto
  then have "n \<le> k" "insert n (\<Union>y \<in> set zs. objects y) \<subseteq> {n..<k}" by auto
  then show ?case unfolding c by simp
next
  case (2 n a kvs)
  obtain zs k where z: "fresh_fields (Suc n) kvs = (zs, k)" by (cases "fresh_fields (Suc n) kvs")
  have c: "c = TObj n zs" "m = k" using 2(2) z by auto
  from 2(1)[OF z] have "Suc n \<le> k" "(\<Union>kv \<in> set zs. objects (snd kv)) \<subseteq> {Suc n..<k}" by auto
  then have "n \<le> k" "insert n (\<Union>kv \<in> set zs. objects (snd kv)) \<subseteq> {n..<k}" by auto
  then show ?case unfolding c by simp
next
  case (10 n x xs)
  obtain y k where y: "fresh_copy n x = (y, k)" by (cases "fresh_copy n x")
  obtain zs j where z: "fresh_copies k xs = (zs, j)" by (cases "fresh_copies k xs")
  have e: "ys = y # zs" "m = j" using 10(3) y z by auto
  from 10(1)[OF y] have a: "n \<le> k" "objects y \<subseteq> {n..<k}" by auto
  from 10(2)[OF y[symmetric] z] have b: "k \<le> j" "(\<Union>y \<in> set zs. objects y) \<subseteq> {k..<j}" by auto
  have "objects y \<subseteq> {n..<j}" using a b(1) by auto
  moreover have "(\<Union>y \<in> set zs. objects y) \<subseteq> {n..<j}" using a(1) b by auto
  ultimately show ?case unfolding e using a(1) b(1) by simp
next
  case (12 n kv kvs)
  obtain y k where y: "fresh_copy n (snd kv) = (y, k)" by (cases "fresh_copy n (snd kv)")
  obtain zs j where z: "fresh_fields k kvs = (zs, j)" by (cases "fresh_fields k kvs")
  have e: "fs = (fst kv, y) # zs" "m = j" using 12(3) y z by auto
  from 12(1)[OF y] have a: "n \<le> k" "objects y \<subseteq> {n..<k}" by auto
  from 12(2)[OF y[symmetric] z] have b: "k \<le> j" "(\<Union>kv \<in> set zs. objects (snd kv)) \<subseteq> {k..<j}"
    by auto
  have "objects y \<subseteq> {n..<j}" using a b(1) by auto
  moreover have "(\<Union>kv \<in> set zs. objects (snd kv)) \<subseteq> {n..<j}" using a(1) b by auto
  ultimately show ?case unfolding e using a(1) b(1) by simp
qed auto

lemma fresh_copy_erase:
  "erase (fst (fresh_copy n v)) = erase v"
  "map erase (fst (fresh_copies n xs)) = map erase xs"
  "map (\<lambda>kv. (fst kv, erase (snd kv))) (fst (fresh_fields n kvs)) =
     map (\<lambda>kv. (fst kv, erase (snd kv))) kvs"
  by (induction n v and n xs and n kvs rule: fresh_copy_fresh_copies_fresh_fields.induct)
     (auto split: prod.splits)

lemma erase_update:
  "map (\<lambda>kv. (fst kv, erase (snd kv))) (AList.update key c acc) =
     AList.update key (erase c) (map (\<lambda>kv. (fst kv, erase (snd kv))) acc)"
  by (induction acc) auto

lemma erase_field_of:
  "erase (field_of kvs key) = get_prop (VObj (map (\<lambda>kv. (fst kv, erase (snd kv))) kvs)) key"
  by (induction kvs) (auto simp: field_of_def)

lemma deepClonePolyfill_t_erase:
  "erase (fst (deepClonePolyfill_t n v)) = deepClonePolyfill (erase v)"
  "map erase (fst (deepClonePolyfill_ts n xs)) = map deepClonePolyfill (map erase xs)"
  "map (\<lambda>kv. (fst kv, erase (snd kv))) (fst (deepClonePolyfill_keys n kvs acc keys)) =
     foldl (\<lambda>clonedObject key.
              AList.update key
                (deepClonePolyfill (get_prop (VObj (map (\<lambda>kv. (fst kv, erase (snd kv))) kvs)) key))
                clonedObject)
       (map (\<lambda>kv. (fst kv, erase (snd kv))) acc) keys"
proof (induction n v and n xs and n kvs acc keys rule: deepClonePolyfill_t_deepClonePolyfill_ts_deepClonePolyfill_keys.induct)
  case (1 n a xs)
  then show ?case
    by (auto simp: deepClonePolyfill.simps[of "VArr (map erase xs)"] split: prod.splits)
next
  case (2 n a kvs)
  then show ?case
    by (auto simp: deepClonePolyfill.simps[of "VObj (map (\<lambda>kv. (fst kv, erase (snd kv))) kvs)"]
          comp_def split: prod.splits)
next
  case (10 n x xs)
  then show ?case by (auto split: prod.splits)
next
  case (12 n kvs clonedObject key keys)
  then show ?case by (auto simp: erase_update erase_field_of split: prod.splits)
qed (simp_all add: deepClonePolyfill.simps)

lemma deepClone_t_erase: "erase (fst (deepClone_t sc n v)) = deepClone sc (erase v)"
  by (simp add: deepClone_t_def deepClone_def structuredClone_t_def structuredClone_def
        fresh_copy_erase deepClonePolyfill_t_erase)

lemma deepClone_t_fresh:
  assumes "deepClone_t sc n v = (c, m)"
  shows "n \<le> m \<and> objects c \<subseteq> {n..<m}"
  using assms deepClonePolyfill_t_fresh(1)[of n v c m] fresh_copy_fresh(1)[of n v c m]
  by (auto simp: deepClone_t_def structuredClone_t_def split: if_splits)

lemma clone_each_fresh:
  "clone_each sc n hs = (cs, m) \<Longrightarrow> n \<le> m \<and> (\<Union>c \<in> set cs. objects c) \<subseteq> {n..<m}"
proof (induction hs arbitrary: n cs m)
  case Nil
  then show ?case by simp
next
  case (Cons h hs)
  obtain y k where y: "deepClone_t sc n h = (y, k)" by (cases "deepClone_t sc n h")
  obtain zs j where z: "clone_each sc k hs = (zs, j)" by (cases "clone_each sc k hs")
  have e: "cs = y # zs" "m = j" using Cons.prems y z by auto
  from deepClone_t_fresh[OF y] have a: "n \<le> k" "objects y \<subseteq> {n..<k}" by auto
  from Cons.IH[OF z] have b: "k \<le> j" "(\<Union>c \<in> set zs. objects c) \<subseteq> {k..<j}" by auto
  have "objects y \<subseteq> {n..<j}" using a b(1) by auto
  moreover have "(\<Union>c \<in> set zs. objects c) \<subseteq> {n..<j}" using a(1) b by auto
  ultimately show ?case unfolding e using a(1) b(1) by simp
qed

lemma clone_each_erase:
  "map erase (fst (clone_each sc n hs)) = map (deepClone sc) (map erase hs)"
proof (induction hs arbitrary: n)
  case Nil
  then show ?case by simp
next
  case (Cons h hs)
  obtain y k where y: "deepClone_t sc n h = (y, k)" by (cases "deepClone_t sc n h")
  have "erase y = deepClone sc (erase h)" using deepClone_t_erase[of sc n h] y by simp
  then show ?case using Cons.IH[of k] y by (auto split: prod.splits)
qed

lemma mutate_store_absent:
  assumes "a \<notin> store_objects s"
  shows "mutate_store a c s = s"
proof -
  have 1: "mutate a c (t_initialState s) = t_initialState s"
    and 2: "mutate a c (t_store s) = t_store s"
    using assms by (auto simp: store_objects_def intro: mutate_absent)
  have 3: "map (mutate a c) (t_history s) = t_history s"
    using assms by (auto simp: store_objects_def intro!: map_idI mutate_absent)
  have 4: "map_option (\<lambda>p. (fst p, mutate a c (snd p))) (t_pending s) = t_pending s"
    using assms by (cases "t_pending s") (auto simp: store_objects_def mutate_absent)
  show ?thesis by (simp add: mutate_store_def 1 2 3 4)
qed

text \<open>
  C10. Take a store all of whose objects were allocated before the call (as they are in
  any state the program reaches). \<open>getHistory\<close> leaves the value, the history, the cursor
  and the timer as they are. What it returns reads, entry by entry, as \<open>deepClone\<close> of the
  history entries (the list \<open>getHistory\<close> of the store without identities), and every
  object of it, the array and all that is inside its entries, is new: a write to any of
  them changes nothing in the store.
\<close>

theorem getHistory_returns_fresh_clones:
  assumes "store_objects s \<subseteq> {..<t_next s}"
  shows "case getHistory_t s of
           (result, s') \<Rightarrow>
             untag s' = untag s \<and> s' = s\<lparr>t_next := t_next s'\<rparr> \<and>
             erase result = VArr (getHistory (untag s)) \<and>
             (\<forall>a \<in> objects result. \<forall>c. mutate_store a c s' = s')"
proof -
  obtain cs m where c: "clone_each (t_structured s) (Suc (t_next s)) (t_history s) = (cs, m)"
    by (cases "clone_each (t_structured s) (Suc (t_next s)) (t_history s)")
  let ?s' = "s\<lparr>t_next := m\<rparr>"
  have g: "getHistory_t s = (TArr (t_next s) cs, ?s')"
    using c by (simp add: getHistory_t_def)
  from clone_each_fresh[OF c] have f: "(\<Union>c \<in> set cs. objects c) \<subseteq> {Suc (t_next s)..<m}"
    and le: "Suc (t_next s) \<le> m" by auto
  have o: "objects (TArr (t_next s) cs) \<subseteq> {t_next s..<m}" using f le by auto
  have so: "store_objects ?s' = store_objects s" by (simp add: store_objects_def)
  have "mutate_store a c ?s' = ?s'" if "a \<in> objects (TArr (t_next s) cs)" for a c
  proof -
    have "t_next s \<le> a" using that o by (auto simp del: objects.simps)
    moreover have "\<forall>b \<in> store_objects s. b < t_next s" using assms by auto
    ultimately have "a \<notin> store_objects ?s'" unfolding so by fastforce
    then show ?thesis by (rule mutate_store_absent)
  qed
  moreover have "erase (TArr (t_next s) cs) = VArr (getHistory (untag s))"
    using clone_each_erase[of "t_structured s" "Suc (t_next s)" "t_history s"] c
    by (simp add: getHistory_def untag_def)
  moreover have "untag ?s' = untag s" by (simp add: untag_def)
  ultimately show ?thesis unfolding g by (simp del: objects.simps)
qed

theorem getHistory_returns_fresh_clones_witness:
  "fst (getHistory_t example_tagged_store) =
     TArr 8 [TObj 9 [(''rows'', TArr 10 [])], TObj 11 [(''rows'', TArr 12 [TNum 1])]] \<and>
   mutate_store 12 (TArr 12 [TNum 1, TNum 2]) (snd (getHistory_t example_tagged_store)) =
     snd (getHistory_t example_tagged_store) \<and>
   mutate_store 8 (TArr 8 []) (snd (getHistory_t example_tagged_store)) =
     snd (getHistory_t example_tagged_store)"
proof -
  have h: "store_objects example_tagged_store \<subseteq> {..<t_next example_tagged_store}"
    by (simp add: store_objects_def example_tagged_store_def)
  have r: "fst (getHistory_t example_tagged_store) =
     TArr 8 [TObj 9 [(''rows'', TArr 10 [])], TObj 11 [(''rows'', TArr 12 [TNum 1])]]"
    by code_simp
  from getHistory_returns_fresh_clones[OF h]
  have "\<forall>a \<in> objects (fst (getHistory_t example_tagged_store)).
          \<forall>c. mutate_store a c (snd (getHistory_t example_tagged_store)) =
               snd (getHistory_t example_tagged_store)"
    by (simp add: case_prod_beta)
  then show ?thesis unfolding r by simp
qed

section \<open>Further properties\<close>

subsection \<open>The history keeps the last hundred snapshots\<close>

lemma push_all_history:
  assumes "store_inv s" "currentIndex s = of_nat (length (history s) - 1)"
  shows "history (foldl (\<lambda>s v. pushHistory v s) s vs) =
           drop (length (history s @ vs) - 100) (history s @ vs) \<and>
         currentIndex (foldl (\<lambda>s v. pushHistory v s) s vs) =
           of_nat (length (history (foldl (\<lambda>s v. pushHistory v s) s vs)) - 1) \<and>
         store_inv (foldl (\<lambda>s v. pushHistory v s) s vs)"
  using assms
proof (induction vs arbitrary: s)
  case Nil
  then show ?case by (simp add: store_inv_def MAX_HISTORY_def)
next
  case (Cons v vs)
  let ?s = "pushHistory v s"
  have i: "store_inv ?s" using Cons.prems(1) by (rule inv_pushHistory)
  from Cons.prems(1) obtain n where n: "currentIndex s = of_nat n" "n < length (history s)"
      "length (history s) \<le> 100"
    by (rule inv_cursor)
  from n(1) Cons.prems(2) have "rat_of_nat n = of_nat (length (history s) - 1)" by simp
  then have n1: "n = length (history s) - 1" by (simp only: of_nat_eq_iff)
  have len: "length (history s) \<le> 100" "history s \<noteq> []" using n by auto
  have sn: "Suc n = length (history s)" using n1 len(2) by (cases "history s") simp_all
  have k: "take (nat \<lfloor>currentIndex s + 1\<rfloor>) (history s) = history s"
    unfolding floor_succ[OF n(1)] sn by simp
  have h: "history ?s = (if length (history s) = 100 then drop 1 (history s) @ [v] else history s @ [v])"
    using pushHistory_history[OF Cons.prems(1), of v] unfolding k by (simp add: Let_def MAX_HISTORY_def)
  have c: "currentIndex ?s = of_nat (length (history ?s) - 1)"
  proof -
    obtain h m where "history ?s = h" "length h = Suc (Suc m)" "currentIndex ?s = of_nat (Suc m)"
      using pushHistory_shape[OF Cons.prems(1), of v] by metis
    then show ?thesis by simp
  qed
  have e: "drop (length (history ?s @ vs) - 100) (history ?s @ vs) =
           drop (length (history s @ v # vs) - 100) (history s @ v # vs)"
  proof (cases "length (history s) = 100")
    case True
    have "history ?s @ vs = drop 1 (history s @ v # vs)" using True h len by simp
    moreover have "length (history s @ v # vs) - 100 = Suc (length (drop 1 (history s @ v # vs)) - 100)"
      using True by simp
    ultimately show ?thesis by (simp del: drop_append append.simps length_append length_drop)
  next
    case False
    then show ?thesis using h by simp
  qed
  from Cons.IH[OF i c] show ?case using e by simp
qed

text \<open>
  Pushing any list of snapshots onto a store as it was created leaves the last 100 of the
  initial entry and the snapshots, in the order they were pushed: the oldest go first.
\<close>

theorem history_keeps_last_hundred:
  "history (foldl (\<lambda>s v. pushHistory v s) (createDataStore sc init) vs) =
     (let pushed = history (createDataStore sc init) @ vs
      in drop (length pushed - 100) pushed)"
proof -
  have "currentIndex (createDataStore sc init) =
      of_nat (length (history (createDataStore sc init)) - 1)"
    by (simp add: createDataStore_def Let_def)
  from push_all_history[OF inv_create this] show ?thesis by (simp add: Let_def)
qed

theorem history_keeps_last_hundred_witness:
  "history (foldl (\<lambda>s v. pushHistory v s) (createDataStore True (VNum 0)) [VNum 1, VNum 2]) =
     [VNum 0, VNum 1, VNum 2]"
proof -
  have "history (createDataStore True (VNum 0)) = [VNum 0]" by code_simp
  then show ?thesis
    using history_keeps_last_hundred[of True "VNum 0" "[VNum 1, VNum 2]"]
    by (simp add: Let_def)
qed

subsection \<open>A clone equals its source\<close>

text \<open>For every well formed value \<open>v\<close>, \<open>deepEqual(v, deepClone(v))\<close> holds, in both
  orders; on trees the clone is \<open>v\<close> itself.\<close>

theorem clone_deepEqual:
  assumes "well_formed v"
  shows "deepClone sc v = v \<and> deepEqual v (deepClone sc v) \<and> deepEqual (deepClone sc v) v"
  using assms by (simp add: deepEqual_refl)

theorem clone_deepEqual_witness:
  "deepEqual (VObj [(''rows'', VArr [VNum 1, VObj [(''id'', VStr ''a'')]]), (''f'', VFun 3)])
     (deepClone True (VObj [(''rows'', VArr [VNum 1, VObj [(''id'', VStr ''a'')]]), (''f'', VFun 3)]))"
proof -
  have w: "well_formed (VObj [(''rows'', VArr [VNum 1, VObj [(''id'', VStr ''a'')]]), (''f'', VFun 3)])"
    by simp
  from clone_deepEqual[OF w, of True] show ?thesis by simp
qed

subsection \<open>What \<open>deepEqual\<close> computes\<close>

text \<open>Structurally identical well formed values are \<open>deepEqual\<close>.\<close>

theorem identical_values_deepEqual:
  assumes "well_formed a" and "well_formed b" and "structurally_identical a b"
  shows "deepEqual a b"
  using assms by (rule identical_deepEqual)

theorem identical_values_deepEqual_witness:
  "deepEqual (VObj [(''a'', VNum 1), (''b'', VArr [VNull])]) (VObj [(''b'', VArr [VNull]), (''a'', VNum 1)])"
proof -
  have a: "well_formed (VObj [(''a'', VNum 1), (''b'', VArr [VNull])])" by simp
  have b: "well_formed (VObj [(''b'', VArr [VNull]), (''a'', VNum 1)])" by simp
  have c: "structurally_identical (VObj [(''a'', VNum 1), (''b'', VArr [VNull])])
             (VObj [(''b'', VArr [VNull]), (''a'', VNum 1)])" by code_simp
  from identical_values_deepEqual[OF a b c] show ?thesis .
qed

lemma index_key_nonempty: "index_key n \<noteq> []"
  by (subst index_key.simps) simp

lemma digit_inj: "a < 10 \<Longrightarrow> b < 10 \<Longrightarrow> (char_of (48 + a) :: char) = char_of (48 + b) \<Longrightarrow> a = (b::nat)"
proof -
  assume a: "a < 10" and b: "b < 10" and e: "(char_of (48 + a) :: char) = char_of (48 + b)"
  have "(of_char (char_of (48 + a) :: char) :: nat) = of_char (char_of (48 + b) :: char)"
    using e by simp
  then have "(48 + a) mod 256 = (48 + b) mod 256" by (simp only: of_char_of)
  then show ?thesis using a b by simp
qed

lemma index_key_inj: "index_key m = index_key n \<Longrightarrow> m = n"
proof (induction m arbitrary: n rule: index_key.induct)
  case (1 m)
  show ?case
  proof (cases "m < 10")
    case True
    then have m: "index_key m = [char_of (48 + m)]" by (subst index_key.simps) simp
    show ?thesis
    proof (cases "n < 10")
      case T: True
      then have "index_key n = [char_of (48 + n)]" by (subst index_key.simps) simp
      then show ?thesis using m 1(2) True T digit_inj by auto
    next
      case False
      then have "index_key n = index_key (n div 10) @ [char_of (48 + n mod 10)]"
        by (subst index_key.simps) simp
      then show ?thesis using m 1(2) index_key_nonempty[of "n div 10"] by auto
    qed
  next
    case False
    then have m: "index_key m = index_key (m div 10) @ [char_of (48 + m mod 10)]"
      by (subst index_key.simps) simp
    show ?thesis
    proof (cases "n < 10")
      case True
      then have "index_key n = [char_of (48 + n)]" by (subst index_key.simps) simp
      then show ?thesis using m 1(2) index_key_nonempty[of "m div 10"] by auto
    next
      case F: False
      then have n: "index_key n = index_key (n div 10) @ [char_of (48 + n mod 10)]"
        by (subst index_key.simps) simp
      from m n 1(2) have e: "index_key (m div 10) = index_key (n div 10)"
        and c: "(char_of (48 + m mod 10) :: char) = char_of (48 + n mod 10)" by auto
      have "m div 10 = n div 10" using 1(1)[OF False e] .
      moreover have "m mod 10 = n mod 10" using digit_inj[OF _ _ c] by simp
      ultimately show ?thesis by (metis div_mult_mod_eq)
    qed
  qed
qed

lemma distinct_index_keys: "distinct (map index_key [0..<n])"
  by (simp add: distinct_map inj_on_def index_key_inj)

lemma find_index_key:
  "i < n \<Longrightarrow> find (\<lambda>j. index_key j = index_key i) [0..<n] = Some i"
  by (auto simp: find_Some_iff dest: index_key_inj intro!: exI[of _ i])

lemma get_prop_index: "i < length xs \<Longrightarrow> get_prop (VArr xs) (index_key i) = xs ! i"
  by (simp add: find_index_key)

lemma container_cases: "container v \<longleftrightarrow> (\<exists>xs. v = VArr xs) \<or> (\<exists>kvs. v = VObj kvs)"
  by (cases v) (simp_all add: container_def)

lemma deepEqual_containers:
  assumes "container a" "container b"
  shows "deepEqual a b =
           (length (own_keys a) = length (own_keys b) \<and>
            (\<forall>k \<in> set (own_keys a). k \<in> set (own_keys b) \<and>
                                    deepEqual (get_prop a k) (get_prop b k)))"
proof (cases "isArray a \<and> isArray b")
  case True
  then obtain xs ys where ab: "a = VArr xs" "b = VArr ys" by (cases a; cases b) auto
  have "(\<forall>k \<in> set (own_keys a). k \<in> set (own_keys b) \<and> deepEqual (get_prop a k) (get_prop b k))
        = (\<forall>i<length xs. deepEqual (xs ! i) (ys ! i))" if l: "length xs = length ys"
  proof
    assume h: "\<forall>k \<in> set (own_keys a). k \<in> set (own_keys b) \<and> deepEqual (get_prop a k) (get_prop b k)"
    show "\<forall>i<length xs. deepEqual (xs ! i) (ys ! i)"
    proof (intro allI impI)
      fix i assume i: "i < length xs"
      then have "index_key i \<in> set (own_keys a)" using ab by simp
      then have "deepEqual (get_prop a (index_key i)) (get_prop b (index_key i))" using h by blast
      moreover have "get_prop a (index_key i) = xs ! i" using ab i by (simp only: get_prop_index)
      moreover have "get_prop b (index_key i) = ys ! i" using ab i l by (simp only: get_prop_index)
      ultimately show "deepEqual (xs ! i) (ys ! i)" by simp
    qed
  next
    assume h: "\<forall>i<length xs. deepEqual (xs ! i) (ys ! i)"
    show "\<forall>k \<in> set (own_keys a). k \<in> set (own_keys b) \<and> deepEqual (get_prop a k) (get_prop b k)"
    proof
      fix k assume "k \<in> set (own_keys a)"
      then obtain i where i: "i < length xs" "k = index_key i" using ab by auto
      have ga: "get_prop a k = xs ! i" using ab i by (simp only: get_prop_index)
      have gb: "get_prop b k = ys ! i" using ab i l by (simp only: get_prop_index)
      have "k \<in> set (own_keys b)" using ab i l by simp
      then show "k \<in> set (own_keys b) \<and> deepEqual (get_prop a k) (get_prop b k)"
        using h i(1) ga gb by simp
    qed
  qed
  then show ?thesis using ab by (auto simp: deepEqual_arrays)
next
  case False
  then show ?thesis
    using assms by (subst deepEqual.simps) (auto simp: container_cases list_all_iff Let_def)
qed

lemma as_record_container:
  "container v \<Longrightarrow> \<exists>f. as_record v = VObj f \<and> map fst f = own_keys v"
  by (auto simp: container_cases comp_def)

lemma own_keys_distinct: "well_formed v \<Longrightarrow> distinct (own_keys v)"
  by (cases v) (simp_all add: distinct_index_keys)

lemma map_of_zip_index:
  "i < length xs \<Longrightarrow>
   map_of (zip (map index_key [0..<length xs]) (map f xs)) (index_key i) = Some (f (xs ! i))"
proof -
  assume i: "i < length xs"
  have "map_of (zip (map index_key [0..<length xs]) (map f xs)) ((map index_key [0..<length xs]) ! i)
        = Some ((map f xs) ! i)"
    using i distinct_index_keys[of "length xs"] by (intro map_of_zip_nth) auto
  then show ?thesis using i by simp
qed

lemma get_prop_as_record:
  assumes "container v" "k \<in> set (own_keys v)"
  shows "get_prop (as_record v) k = as_record (get_prop v k)"
proof (cases v)
  case (VArr xs)
  then obtain i where i: "i < length xs" "k = index_key i" using assms(2) by auto
  then show ?thesis using VArr by (simp add: map_of_zip_index find_index_key)
next
  case (VObj kvs)
  have "map_of (map (\<lambda>kv. (fst kv, as_record (snd kv))) kvs) k = map_option as_record (map_of kvs k)"
    by (induction kvs) auto
  moreover obtain w where "map_of kvs k = Some w"
    using assms(2) VObj by (cases "map_of kvs k") (auto simp: map_of_eq_None_iff)
  ultimately show ?thesis using VObj by simp
qed (use assms in \<open>simp_all add: container_def\<close>)

lemma well_formed_own_prop:
  assumes "well_formed v" "container v" "k \<in> set (own_keys v)"
  shows "well_formed (get_prop v k)"
proof (cases v)
  case (VArr xs)
  then obtain i where i: "i < length xs" "k = index_key i" using assms(3) by auto
  then show ?thesis using VArr assms(1) by (simp add: find_index_key list_all_length)
next
  case (VObj kvs)
  then show ?thesis using assms well_formed_get_prop[of kvs k] by simp
qed (use assms in \<open>simp_all add: container_def\<close>)

lemma identical_records:
  "structurally_identical (VObj fa) (VObj fb) =
     (set (map fst fa) = set (map fst fb) \<and>
      (\<forall>k \<in> set (map fst fa).
         structurally_identical (get_prop (VObj fa) k) (get_prop (VObj fb) k)))"
  by (simp add: list_all_iff del: get_prop.simps)

lemma identical_scalar:
  "\<not> container a \<Longrightarrow> structurally_identical a b = (b = a)"
  by (cases a) (simp_all add: container_def)

lemma identical_record_scalar:
  "\<not> container b \<Longrightarrow> structurally_identical (VObj fa) b = False"
  by (cases b) (simp_all add: container_def)

lemma distinct_same_length_subset:
  assumes "distinct xs" "distinct ys"
  shows "(length xs = length ys \<and> set xs \<subseteq> set ys) = (set xs = set ys)"
proof
  assume h: "length xs = length ys \<and> set xs \<subseteq> set ys"
  have "card (set xs) = card (set ys)"
    using distinct_card[OF assms(1)] distinct_card[OF assms(2)] h by simp
  then show "set xs = set ys" using h card_subset_eq[of "set ys" "set xs"] by simp
next
  assume h: "set xs = set ys"
  have "length xs = card (set xs)" using distinct_card[OF assms(1)] by simp
  also have "\<dots> = length ys" using distinct_card[OF assms(2)] h by simp
  finally show "length xs = length ys \<and> set xs \<subseteq> set ys" using h by simp
qed

text \<open>
  On well formed values, \<open>deepEqual(a, b)\<close> is structural identity of \<open>a\<close> and \<open>b\<close> with
  every array read as the record of its indices: apart from that reading it is the
  identity the specification describes.
\<close>

theorem deepEqual_is_identity_of_records:
  assumes "well_formed a" and "well_formed b"
  shows "deepEqual a b = structurally_identical (as_record a) (as_record b)"
  using assms
proof (induction a arbitrary: b rule: measure_induct_rule[of size])
  case (less a)
  show ?case
  proof (cases "container a")
    case False
    have "as_record a = a" using False by (cases a) (simp_all add: container_def)
    moreover have "(as_record b = a) = (a = b)"
    proof (cases "container b")
      case True
      then obtain f where "as_record b = VObj f" using as_record_container by blast
      then show ?thesis using False True by (auto simp: container_cases)
    next
      case F: False
      then have "as_record b = b" by (cases b) (simp_all add: container_def)
      then show ?thesis by auto
    qed
    moreover have "deepEqual a b = (a = b)"
      using False by (intro deepEqual_scalar_left) (auto simp: container_def)
    ultimately show ?thesis using False by (simp add: identical_scalar)
  next
    case True
    obtain fa where fa: "as_record a = VObj fa" "map fst fa = own_keys a"
      using as_record_container[OF True] by blast
    show ?thesis
    proof (cases "container b")
      case False
      have "as_record b = b" using False by (cases b) (simp_all add: container_def)
      moreover have "deepEqual a b = (a = b)"
        using False by (intro deepEqual_scalar_right) (auto simp: container_def)
      moreover have "a \<noteq> b" using True False by auto
      ultimately show ?thesis using fa False by (simp add: identical_record_scalar)
    next
      case Tb: True
      obtain fb where fb: "as_record b = VObj fb" "map fst fb = own_keys b"
        using as_record_container[OF Tb] by blast
      have da: "distinct (own_keys a)" and db: "distinct (own_keys b)"
        using less.prems by (auto intro: own_keys_distinct)
      have step: "deepEqual (get_prop a k) (get_prop b k) =
                  structurally_identical (get_prop (VObj fa) k) (get_prop (VObj fb) k)"
        if k: "k \<in> set (own_keys a)" "k \<in> set (own_keys b)" for k
      proof -
        have "size (get_prop a k) < size a"
          using size_get_prop[of k a] k(1) True by (simp add: container_def)
        moreover have "well_formed (get_prop a k)" "well_formed (get_prop b k)"
          using less.prems True Tb k by (auto intro: well_formed_own_prop)
        ultimately have "deepEqual (get_prop a k) (get_prop b k) =
            structurally_identical (as_record (get_prop a k)) (as_record (get_prop b k))"
          using less.IH by blast
        then show ?thesis
          using get_prop_as_record[OF True k(1)] get_prop_as_record[OF Tb k(2)] fa fb by simp
      qed
      have "deepEqual a b =
              (length (own_keys a) = length (own_keys b) \<and> set (own_keys a) \<subseteq> set (own_keys b) \<and>
               (\<forall>k \<in> set (own_keys a). deepEqual (get_prop a k) (get_prop b k)))"
        unfolding deepEqual_containers[OF True Tb] by blast
      also have "\<dots> = (set (own_keys a) = set (own_keys b) \<and>
               (\<forall>k \<in> set (own_keys a). deepEqual (get_prop a k) (get_prop b k)))"
        using distinct_same_length_subset[OF da db] by blast
      also have "\<dots> = (set (own_keys a) = set (own_keys b) \<and>
               (\<forall>k \<in> set (own_keys a).
                  structurally_identical (get_prop (VObj fa) k) (get_prop (VObj fb) k)))"
        using step by blast
      also have "\<dots> = structurally_identical (VObj fa) (VObj fb)"
        unfolding identical_records fa fb ..
      finally show ?thesis using fa fb by simp
    qed
  qed
qed

theorem deepEqual_is_identity_of_records_witness:
  "deepEqual (VArr [VNum 1, VArr []]) (VObj [(''0'', VNum 1), (''1'', VObj [])]) \<and>
   as_record (VArr [VNum 1, VArr []]) = VObj [(''0'', VNum 1), (''1'', VObj [])]"
proof -
  have a: "well_formed (VArr [VNum 1, VArr []])" by simp
  have b: "well_formed (VObj [(''0'', VNum 1), (''1'', VObj [])])" by simp
  have c: "as_record (VArr [VNum 1, VArr []]) = VObj [(''0'', VNum 1), (''1'', VObj [])]"
    by code_simp
  have d: "as_record (VObj [(''0'', VNum 1), (''1'', VObj [])]) = VObj [(''0'', VNum 1), (''1'', VObj [])]"
    by code_simp
  have e: "structurally_identical (VObj [(''0'', VNum 1), (''1'', VObj [])])
             (VObj [(''0'', VNum 1), (''1'', VObj [])])"
    by code_simp
  from deepEqual_is_identity_of_records[OF a b] show ?thesis
    unfolding c d using e by simp
qed

subsection \<open>Setting the current value\<close>

lemma update_same_keys: "k \<in> fst ` set al \<Longrightarrow> map fst (AList.update k v al) = map fst al"
  by (induction al) auto

lemma merge_keys_same_keys:
  assumes "set keys \<subseteq> fst ` set r" "merge_keys sc src (VObj r) keys = Inr (VObj r')"
  shows "map fst r' = map fst r"
  using assms
proof (induction keys arbitrary: r)
  case Nil
  then show ?case by simp
next
  case (Cons key keys)
  have kin: "key \<in> fst ` set r" "set keys \<subseteq> fst ` set r" using Cons.prems(1) by auto
  show ?case
  proof (cases "get_prop src key = VUndef")
    case True
    then have "merge_keys sc src (VObj r) keys = Inr (VObj r')"
      using Cons.prems(2) by (simp add: read_prop_def Let_def)
    from Cons.IH[OF kin(2) this] show ?thesis .
  next
    case False
    then obtain x where x: "merge_keys sc src (VObj (AList.update key x r)) keys = Inr (VObj r')"
      using Cons.prems(2)
      by (auto simp: read_prop_def Let_def split: sum.splits if_splits)
    have m: "map fst (AList.update key x r) = map fst r"
      using kin(1) by (rule update_same_keys)
    then have "fst ` set (AList.update key x r) = fst ` set r"
      by (metis list.set_map)
    then have "set keys \<subseteq> fst ` set (AList.update key x r)" using kin(2) by simp
    from Cons.IH[OF this x] show ?thesis using m by simp
  qed
qed

lemma same_keys_same_map:
  "map fst xs = map fst ys \<Longrightarrow> distinct (map fst xs) \<Longrightarrow>
   (\<And>k. k \<in> fst ` set xs \<Longrightarrow> map_of xs k = map_of ys k) \<Longrightarrow> xs = ys"
proof (induction xs arbitrary: ys)
  case Nil
  then show ?case by simp
next
  case (Cons x xs)
  then obtain y ys' where y: "ys = y # ys'" "fst x = fst y" "map fst xs = map fst ys'"
    by (cases ys) auto
  have "map_of (x # xs) (fst x) = map_of ys (fst x)" using Cons.prems(3)[of "fst x"] by simp
  then have xy: "x = y" using y by (cases x; cases y) simp
  have "map_of xs k = map_of ys' k" if "k \<in> fst ` set xs" for k
  proof -
    have "fst x \<notin> fst ` set xs" using Cons.prems(2) by simp
    then have "k \<noteq> fst x" using that by blast
    then show ?thesis using Cons.prems(3)[of k] that y xy by (cases x) auto
  qed
  then have "xs = ys'" using Cons.IH[OF y(3)] Cons.prems(2) by simp
  then show ?case using y xy by simp
qed

lemma deepMerge_self:
  "well_formed (VObj a) \<Longrightarrow> deepMerge sc (VObj a) (VObj a) = Inr (VObj a)"
proof (induction a rule: measure_induct_rule[of "\<lambda>a. size (VObj a)"])
  case (less a)
  obtain r where r: "deepMerge sc (VObj a) (VObj a) = Inr (VObj r)"
    using deepMerge_records[of "VObj a" "VObj a" sc] by (auto simp: isPlainObject_iff)
  have m: "merge_keys sc (VObj a) (VObj a) (map fst a) = Inr (VObj r)"
    using r less.prems by (subst (asm) deepMerge.simps) simp
  have d: "distinct (map fst a)" using less.prems by simp
  note look = merge_keys_lookup[OF d m]
  have same: "map_of a k = map_of r k" if k: "k \<in> fst ` set a" for k
  proof -
    obtain v where v: "map_of a k = Some v"
      using k by (cases "map_of a k") (auto simp: map_of_eq_None_iff)
    have kv: "(k, v) \<in> set a" using v by (rule map_of_SomeD)
    have wv: "well_formed v" using less.prems kv by (auto simp: list_all_iff)
    have g: "get_prop (VObj a) k = v" using v by simp
    show ?thesis
    proof (cases "v = VUndef")
      case True
      then show ?thesis using look[of k] g by simp
    next
      case False
      have "merged_at sc v v = v"
      proof (cases "isPlainObject v")
        case True
        then obtain f where f: "v = VObj f" by (auto simp: isPlainObject_iff)
        have "size (VObj f) < size (VObj a)"
          using size_get_prop[of k "VObj a"] k g f by simp
        from less.IH[OF this] wv f have "deepMerge sc v v = Inr v" by simp
        then show ?thesis using True by (simp add: merged_at_def)
      next
        case False
        then show ?thesis by (simp add: merged_at_def)
      qed
      then show ?thesis using look[of k] g False k v by simp
    qed
  qed
  have keys: "map fst r = map fst a"
    using merge_keys_same_keys[OF _ m] by simp
  have "a = r"
    using same_keys_same_map[OF keys[symmetric] d] same by blast
  then show ?case using r by simp
qed

text \<open>
  Calling \<open>set\<close> with the current value itself (a well formed value) changes nothing, in
  the singleton store and in a context store without reducer: for a record the candidate
  is the merge of the value with itself, which is the value.
\<close>

theorem set_current_value_is_noop:
  assumes "well_formed (store s)" and "well_formed (current c)" and "reducer opts = None"
  shows "setStore (Plain (store s)) s = Inr s \<and> set_ctx opts (Plain (current c)) c = Inr c"
proof -
  have n: "nextState s (Plain (store s)) = Inr (store s)"
    using assms(1) deepMerge_self[of _ "structured s"]
    by (cases "store s") (simp_all add: nextState_def)
  have nc: "nextState_ctx opts c (Plain (current c)) = Inr (current c)"
    using assms(2,3) deepMerge_self[of _ "cloneable opts"]
    by (cases "current c") (simp_all add: nextState_ctx_def)
  show ?thesis
    using n nc by (simp add: setStore_def set_ctx_def deepEqual_refl)
qed

theorem set_current_value_is_noop_witness:
  "setStore (Plain (VObj [(''columnVisibility'', VObj [(''id'', VBool False)])]))
     (createDataStore True (VObj [(''columnVisibility'', VObj [(''id'', VBool False)])]))
   = Inr (createDataStore True (VObj [(''columnVisibility'', VObj [(''id'', VBool False)])]))"
proof -
  let ?v = "VObj [(''columnVisibility'', VObj [(''id'', VBool False)])]"
  have st: "store (createDataStore True ?v) = ?v" by code_simp
  have a: "well_formed (store (createDataStore True ?v))" unfolding st by simp
  have b: "well_formed (current \<lparr> current = ?v, subscribers = [], called = [],
              storage = \<lparr> granted = True, items = [], writes = 0 \<rparr> \<rparr>)" by simp
  have c: "reducer plain_options = None" by (simp add: plain_options_def)
  from set_current_value_is_noop[OF a b c] show ?thesis unfolding st by simp
qed

end
